theory Spec2Isabelle
  imports Main "HOL-Library.Word" "HOL-Library.Multiset"
begin

unbundle bit_operations_syntax

section \<open>Data model\<close>

text \<open>
  The element type \<open>T\<close> of the templates is an unsigned integer of \<open>W\<close> bits
  (\<open>uint8_t\<close>, \<open>uint16_t\<close>, \<open>uint32_t\<close>, \<open>uint64_t\<close>): here \<open>'a word\<close> with
  \<open>W = LENGTH('a)\<close>. A \<open>std::vector<T>\<close> is a list.

  Reading or writing a vector or a span outside its bounds, building a sub-span outside
  its parent, and incrementing an \<open>int\<close> beyond \<open>INT_MAX\<close> are undefined behaviour in
  C++. The model makes each of them an error value, so that a run of the model that
  returns \<open>Inr\<close> did none of them.
\<close>

datatype error =
    SpanIndex int      \<comment> \<open>\<open>vview[i]\<close> with \<open>i\<close> outside the span\<close>
  | SubspanRange       \<comment> \<open>\<open>subspan\<close> outside its parent\<close>
  | VectorIndex int    \<comment> \<open>\<open>v[i]\<close> outside the vector\<close>
  | StackIndex int     \<comment> \<open>\<open>stack[i]\<close> outside the work-list array\<close>
  | IntOverflow        \<comment> \<open>\<open>++left\<close> with \<open>left = INT_MAX\<close>\<close>

text \<open>
  The source holds indices, sizes and bit numbers in \<open>int\<close>, of 32 bits, and sizes of
  vectors and spans are \<open>size_t\<close>. The model keeps every \<open>int\<close> as an integer and writes
  out the two places where an \<open>int\<close> of the source is not the integer:

  \<^item> a \<open>size_t\<close> stored in an \<open>int\<close> (\<open>int right = vview.size() - 1\<close>, line 27, and the
    \<open>v.size()\<close> of the first task, line 62) is taken modulo \<open>2^32\<close> into the range of
    \<open>int\<close>: \<open>int_of_size\<close>. It is the size itself below \<open>2^31\<close>;

  \<^item> \<open>++left\<close> in the recursive variant, where \<open>right\<close> can be \<open>INT_MAX\<close>, overflows
    when \<open>left\<close> is \<open>INT_MAX\<close>.

  Nothing else leaves the range of \<open>int\<close>. \<open>--right\<close> comes after \<open>vview[right]\<close> or
  \<open>v[right]\<close> was read, so \<open>right\<close> was at least 0, and \<open>bit - 1\<close> is computed for
  \<open>bit \<ge> 0\<close> only. In the iterative variant, on every vector, a task that a pass
  partitions has \<open>0 \<le> start\<close> and \<open>start + size \<le> INT_MAX\<close> inside the vector
  (\<open>it_partition_ints\<close> below), and \<open>left\<close> and \<open>right\<close> stay between \<open>start - 1\<close> and
  \<open>start + size\<close>. \<open>W\<close> is 8, 16, 32 or 64 for the element types of the source, so
  \<open>sizeof(T) * 8 - 1\<close> is the same number as an \<open>int\<close>; the bit of a task or of a call
  is below \<open>W\<close> (\<open>it_partition_ints\<close>, \<open>rec_call_chain\<close>), so the loops shift by
  \<open>0 \<le> bit < W\<close> only, where the shift of C++ is defined and is \<open>drop_bit\<close>.
\<close>

abbreviation INT_MAX :: int where
  "INT_MAX \<equiv> 2147483647"

definition int_of_size :: "nat \<Rightarrow> int" where
  "int_of_size n = (let m = int n mod 2 ^ 32 in if m < 2 ^ 31 then m else m - 2 ^ 32)"

text \<open>A \<open>std::span<T>\<close> over the vector: where it starts in the vector and its size.\<close>

record span =
  span_data :: nat
  span_size :: nat

section \<open>Recursive variant: \<open>bin_radix_sort_rec\<close>\<close>

text \<open>\<open>vview[i]\<close>: the element \<open>i\<close> of the span, an element of the vector.\<close>

definition span_at :: "'a list \<Rightarrow> span \<Rightarrow> int \<Rightarrow> error + 'a" where
  "span_at v vview i =
     (if 0 \<le> i \<and> i < int (span_size vview) \<and> span_data vview + nat i < length v
      then Inr (v ! (span_data vview + nat i))
      else Inl (SpanIndex i))"

text \<open>\<open>std::swap(vview[i], vview[j])\<close>: both elements are read, then both written.\<close>

definition span_swap :: "'a list \<Rightarrow> span \<Rightarrow> int \<Rightarrow> int \<Rightarrow> error + 'a list" where
  "span_swap v vview i j =
     (case span_at v vview i of
        Inl e \<Rightarrow> Inl e
      | Inr x \<Rightarrow>
          (case span_at v vview j of
             Inl e \<Rightarrow> Inl e
           | Inr y \<Rightarrow>
               Inr (v[span_data vview + nat i := y, span_data vview + nat j := x])))"

text \<open>
  \<open>vview.subspan(offset, count)\<close> and \<open>vview.subspan(offset)\<close>. The standard requires
  \<open>offset \<le> size()\<close> and \<open>count \<le> size() - offset\<close> (\<open>cnt\<close> below).
\<close>

definition subspan :: "span \<Rightarrow> int \<Rightarrow> int \<Rightarrow> error + span" where
  "subspan vview offset cnt =
     (if 0 \<le> offset \<and> offset \<le> int (span_size vview)
         \<and> 0 \<le> cnt \<and> cnt \<le> int (span_size vview) - offset
      then Inr \<lparr>span_data = span_data vview + nat offset, span_size = nat cnt\<rparr>
      else Inl SubspanRange)"

definition subspan_from :: "span \<Rightarrow> int \<Rightarrow> error + span" where
  "subspan_from vview offset =
     (if 0 \<le> offset \<and> offset \<le> int (span_size vview)
      then Inr \<lparr>span_data = span_data vview + nat offset,
                span_size = span_size vview - nat offset\<rparr>
      else Inl SubspanRange)"

text \<open>
  The \<open>while (left <= right)\<close> loop of the recursive variant (lines 29 to 42), with the
  vector, \<open>left\<close> and \<open>right\<close> as its state. It returns the vector and \<open>left\<close>.
  \<open>(vview[left] >> bit) & 1\<close> is \<open>drop_bit bit_i x AND 1\<close> (the source's \<open>bit\<close> is
  \<open>bit_i\<close> here, \<open>bit\<close> being a constant of HOL).
\<close>

function rec_partition ::
  "'a::len word list \<Rightarrow> span \<Rightarrow> int \<Rightarrow> int \<Rightarrow> int \<Rightarrow> error + ('a word list \<times> int)"
where
  "rec_partition v vview bit_i left right =
     (if left \<le> right then
        (case span_at v vview left of
           Inl e \<Rightarrow> Inl e
         | Inr x \<Rightarrow>
             if drop_bit (nat bit_i) x AND 1 = 0 then
               (if left < INT_MAX then rec_partition v vview bit_i (left + 1) right
                else Inl IntOverflow)
             else
               (case span_swap v vview left right of
                  Inl e \<Rightarrow> Inl e
                | Inr v' \<Rightarrow> rec_partition v' vview bit_i left (right - 1)))
      else Inr (v, left))"
  by pat_completeness auto
termination
  by (relation "measure (\<lambda>(v, vview, bit_i, left, right). nat (right - left + 1))") auto

declare rec_partition.simps [simp del]

text \<open>
  The lambda \<open>bin_radix_sort_rec_inm\<close> (lines 21 to 46). \<open>vview.size() - 1\<close> is computed
  in \<open>size_t\<close>, for a size of at least 2, and stored in the \<open>int right\<close>.
\<close>

function bin_radix_sort_rec_inm ::
  "'a::len word list \<Rightarrow> span \<Rightarrow> int \<Rightarrow> error + 'a word list"
where
  "bin_radix_sort_rec_inm v vview bit_i =
     (if span_size vview \<le> 1 \<or> bit_i < 0 then Inr v
      else
        (case rec_partition v vview bit_i 0 (int_of_size (span_size vview - 1)) of
           Inl e \<Rightarrow> Inl e
         | Inr (v1, left) \<Rightarrow>
             (case subspan vview 0 left of
                Inl e \<Rightarrow> Inl e
              | Inr lo \<Rightarrow>
                  (case bin_radix_sort_rec_inm v1 lo (bit_i - 1) of
                     Inl e \<Rightarrow> Inl e
                   | Inr v2 \<Rightarrow>
                       (case subspan_from vview left of
                          Inl e \<Rightarrow> Inl e
                        | Inr hi \<Rightarrow> bin_radix_sort_rec_inm v2 hi (bit_i - 1))))))"
  by pat_completeness auto
termination
  by (relation "measure (\<lambda>(v, vview, bit_i). nat (bit_i + 1))") auto

declare bin_radix_sort_rec_inm.simps [simp del]

text \<open>
  \<open>bin_radix_sort_rec\<close>: the lambda on the span of the whole vector (\<open>std::span{v}\<close>),
  from bit \<open>sizeof(T) * 8 - 1\<close>.
\<close>

definition bin_radix_sort_rec :: "'a::len word list \<Rightarrow> error + 'a word list" where
  "bin_radix_sort_rec v =
     bin_radix_sort_rec_inm v \<lparr>span_data = 0, span_size = length v\<rparr> (int LENGTH('a) - 1)"

section \<open>Iterative variant: \<open>bin_radix_sort_it\<close>\<close>

text \<open>\<open>v[i]\<close> read and written, for the vector and for the work-list array.\<close>

definition vec_at :: "'a list \<Rightarrow> int \<Rightarrow> error + 'a" where
  "vec_at v i = (if 0 \<le> i \<and> i < int (length v) then Inr (v ! nat i) else Inl (VectorIndex i))"

definition vec_set :: "'a list \<Rightarrow> int \<Rightarrow> 'a \<Rightarrow> error + 'a list" where
  "vec_set v i x =
     (if 0 \<le> i \<and> i < int (length v) then Inr (v[nat i := x]) else Inl (VectorIndex i))"

text \<open>A pending task: the tuple \<open>(start, size, bit)\<close> of the source.\<close>

type_synonym task = "int \<times> int \<times> int"

definition stack_at :: "task list \<Rightarrow> int \<Rightarrow> error + task" where
  "stack_at stack i =
     (if 0 \<le> i \<and> i < int (length stack) then Inr (stack ! nat i) else Inl (StackIndex i))"

definition stack_set :: "task list \<Rightarrow> int \<Rightarrow> task \<Rightarrow> error + task list" where
  "stack_set stack i t =
     (if 0 \<le> i \<and> i < int (length stack) then Inr (stack[nat i := t]) else Inl (StackIndex i))"

text \<open>The swap of lines 85 to 87: \<open>T tmp = v[left]; v[left] = v[right]; v[right] = tmp;\<close>\<close>

definition vec_swap :: "'a list \<Rightarrow> int \<Rightarrow> int \<Rightarrow> error + 'a list" where
  "vec_swap v left right =
     (case vec_at v left of
        Inl e \<Rightarrow> Inl e
      | Inr tmp \<Rightarrow>
          (case vec_at v right of
             Inl e \<Rightarrow> Inl e
           | Inr y \<Rightarrow>
               (case vec_set v left y of
                  Inl e \<Rightarrow> Inl e
                | Inr v1 \<Rightarrow> vec_set v1 right tmp)))"

text \<open>
  The inner \<open>while (left <= right)\<close> loop of the iterative variant (lines 74 to 93), on
  the indices of the vector. It returns the vector and \<open>left\<close>.
\<close>

function it_partition ::
  "'a::len word list \<Rightarrow> int \<Rightarrow> int \<Rightarrow> int \<Rightarrow> error + ('a word list \<times> int)"
where
  "it_partition v bit_i left right =
     (if left \<le> right then
        (case vec_at v left of
           Inl e \<Rightarrow> Inl e
         | Inr x \<Rightarrow>
             if drop_bit (nat bit_i) x AND 1 = 0 then
               it_partition v bit_i (left + 1) right
             else
               (case vec_swap v left right of
                  Inl e \<Rightarrow> Inl e
                | Inr v' \<Rightarrow> it_partition v' bit_i left (right - 1)))
      else Inr (v, left))"
  by pat_completeness auto
termination
  by (relation "measure (\<lambda>(v, bit_i, left, right). nat (right - left + 1))") auto

declare it_partition.simps [simp del]

text \<open>
  The state of the outer loop: the vector, the work-list array and \<open>top\<close> (\<open>top_i\<close> here).
\<close>

record 'e it_state =
  vec :: "'e list"
  stack :: "task list"
  top_i :: int

text \<open>
  One pass of the body of \<open>while (top >= 0)\<close> (lines 65 to 96): pop a task, drop it when
  it has at most one element or no bit left, otherwise partition its range and push the
  two halves. The source's \<open>size\<close> is \<open>size_i\<close> here.
\<close>

definition it_step :: "'a::len word it_state \<Rightarrow> error + 'a word it_state" where
  "it_step s =
     (case stack_at (stack s) (top_i s) of
        Inl e \<Rightarrow> Inl e
      | Inr (start, size_i, bit_i) \<Rightarrow>
          let top1 = top_i s - 1 in
          if size_i \<le> 1 \<or> bit_i < 0 then Inr (s\<lparr>top_i := top1\<rparr>)
          else
            (case it_partition (vec s) bit_i start (start + size_i - 1) of
               Inl e \<Rightarrow> Inl e
             | Inr (v', left) \<Rightarrow>
                 (case stack_set (stack s) (top1 + 1) (start, left - start, bit_i - 1) of
                    Inl e \<Rightarrow> Inl e
                  | Inr stack1 \<Rightarrow>
                      (case stack_set stack1 (top1 + 2)
                              (left, size_i - (left - start), bit_i - 1) of
                         Inl e \<Rightarrow> Inl e
                       | Inr stack2 \<Rightarrow>
                           Inr \<lparr>vec = v', stack = stack2, top_i = top1 + 2\<rparr>))))"

text \<open>
  What is left of a task and of the live part of the work-list (the entries \<open>0 .. top\<close>):
  a task at bit \<open>b\<close> stands for at most \<open>2 ^ (b + 2) - 1\<close> passes of the loop. The
  outer loop terminates because each pass decreases the sum.
\<close>

definition task_weight :: "task \<Rightarrow> nat" where
  "task_weight t = (case t of (start, size_i, bit_i) \<Rightarrow> 2 ^ (nat (bit_i + 1) + 1) - 1)"

definition live :: "'e it_state \<Rightarrow> task list" where
  "live s = take (nat (top_i s + 1)) (stack s)"

definition work :: "'e it_state \<Rightarrow> nat" where
  "work s = sum_list (map task_weight (live s))"

text \<open>Termination of the outer loop: each pass decreases \<open>work\<close>.\<close>

lemma two_power_pred: "(2::nat) ^ Suc m - 1 = Suc ((2 ^ m - 1) + (2 ^ m - 1))"
proof -
  have "2 * x - 1 = Suc ((x - 1) + (x - 1))" if "1 \<le> x" for x :: nat
    using that by arith
  from this [of "2 ^ m"] show ?thesis by simp
qed

lemma task_weight_pos: "0 < task_weight t"
proof -
  obtain s n b where t: "t = (s, n, b)" by (cases t) auto
  have "(1::nat) \<le> 2 ^ nat (b + 1)" by simp
  then have "Suc 0 < 2 * 2 ^ nat (b + 1)" by arith
  then show ?thesis by (simp add: task_weight_def t)
qed

lemma task_weight_split:
  assumes "0 \<le> b"
  shows "task_weight (s1, n1, b) = Suc (task_weight (s2, n2, b - 1) + task_weight (s3, n3, b - 1))"
proof -
  have "nat (b + 1) + 1 = Suc (nat (b - 1 + 1) + 1)" using assms by simp
  then show ?thesis by (simp only: task_weight_def prod.case two_power_pred)
qed

lemma it_step_cases:
  assumes "it_step s = Inr s'"
  obtains
    (discard) start size_i b where
      "stack_at (stack s) (top_i s) = Inr (start, size_i, b)"
      "size_i \<le> 1 \<or> b < 0"
      "s' = s\<lparr>top_i := top_i s - 1\<rparr>"
  | (split) start size_i b v' left st1 st2 where
      "stack_at (stack s) (top_i s) = Inr (start, size_i, b)"
      "1 < size_i" "0 \<le> b"
      "it_partition (vec s) b start (start + size_i - 1) = Inr (v', left)"
      "stack_set (stack s) (top_i s) (start, left - start, b - 1) = Inr st1"
      "stack_set st1 (top_i s + 1) (left, size_i - (left - start), b - 1) = Inr st2"
      "s' = \<lparr>vec = v', stack = st2, top_i = top_i s + 1\<rparr>"
  using assms unfolding it_step_def Let_def
  by (auto split: sum.splits prod.splits if_splits simp: add.commute)

lemma stack_at_Inr:
  "stack_at st i = Inr t \<longleftrightarrow> 0 \<le> i \<and> i < int (length st) \<and> st ! nat i = t"
  by (auto simp: stack_at_def)

lemma stack_set_Inr:
  "stack_set st i t = Inr st' \<longleftrightarrow> 0 \<le> i \<and> i < int (length st) \<and> st' = st[nat i := t]"
  by (auto simp: stack_set_def)

lemma live_pop:
  assumes "0 \<le> top_i s" "top_i s < int (length (stack s))"
  shows "live s = take (nat (top_i s)) (stack s) @ [stack s ! nat (top_i s)]"
proof -
  have "nat (top_i s + 1) = Suc (nat (top_i s))" using assms by simp
  moreover have "nat (top_i s) < length (stack s)" using assms by simp
  ultimately show ?thesis by (simp add: live_def take_Suc_conv_app_nth)
qed

lemma live_discard:
  assumes "0 \<le> top_i s"
  shows "live (s\<lparr>top_i := top_i s - 1\<rparr>) = take (nat (top_i s)) (stack s)"
  using assms by (simp add: live_def)

lemma live_push2:
  assumes "0 \<le> k" "k + 1 < int (length st)"
  shows "live \<lparr>vec = v, stack = st[nat k := t1, nat (k + 1) := t2], top_i = k + 1\<rparr>
         = take (nat k) st @ [t1, t2]"
proof -
  let ?n = "nat k"
  have n: "nat (k + 1) = Suc ?n" "nat (k + 1 + 1) = Suc (Suc ?n)" "Suc ?n < length st"
    using assms by simp_all
  have "take (Suc (Suc ?n)) (st[?n := t1, Suc ?n := t2])
        = take (Suc ?n) (st[?n := t1, Suc ?n := t2]) @ [t2]"
    using n(3) by (simp add: take_Suc_conv_app_nth)
  also have "take (Suc ?n) (st[?n := t1, Suc ?n := t2]) = take (Suc ?n) (st[?n := t1])"
    by simp
  also have "\<dots> = take ?n st @ [t1]"
    using n(3) by (simp add: take_Suc_conv_app_nth)
  finally have "take (Suc (Suc ?n)) (st[?n := t1, Suc ?n := t2]) = take ?n st @ [t1, t2]"
    by simp
  then show ?thesis unfolding live_def by (simp only: it_state.simps n)
qed

lemma it_step_work:
  assumes "0 \<le> top_i s" "it_step s = Inr s'"
  shows "work s' < work s"
  using assms(2)
proof (cases rule: it_step_cases)
  case (discard start size_i b)
  from discard(1) have "work s = sum_list (map task_weight (take (nat (top_i s)) (stack s)))
                     + task_weight (start, size_i, b)"
    using live_pop [of s] by (simp add: work_def stack_at_Inr)
  moreover have "work s' = sum_list (map task_weight (take (nat (top_i s)) (stack s)))"
    unfolding discard(3) work_def using assms(1) by (simp only: live_discard)
  ultimately show ?thesis using task_weight_pos [of "(start, size_i, b)"] by simp
next
  case (split start size_i b v' left st1 st2)
  from split(1) have ws: "work s = sum_list (map task_weight (take (nat (top_i s)) (stack s)))
                     + task_weight (start, size_i, b)"
    using live_pop [of s] by (simp add: work_def stack_at_Inr)
  from split(5,6) have inb2: "top_i s + 1 < int (length (stack s))"
    and st2: "st2 = (stack s)[nat (top_i s) := (start, left - start, b - 1),
                   nat (top_i s + 1) := (left, size_i - (left - start), b - 1)]"
    by (auto simp: stack_set_Inr)
  have "live s' = take (nat (top_i s)) (stack s)
            @ [(start, left - start, b - 1), (left, size_i - (left - start), b - 1)]"
    unfolding split(7) st2 using assms(1) inb2 by (rule live_push2)
  then show ?thesis
    using ws split(3)
      task_weight_split [of b start size_i start "left - start" left "size_i - (left - start)"]
    by (simp add: work_def)
qed

text \<open>The loop \<open>while (top >= 0)\<close> (line 64).\<close>

function bin_radix_sort_it_loop :: "'a::len word it_state \<Rightarrow> error + 'a word it_state" where
  "bin_radix_sort_it_loop s =
     (if 0 \<le> top_i s then
        (case it_step s of
           Inl e \<Rightarrow> Inl e
         | Inr s' \<Rightarrow> bin_radix_sort_it_loop s')
      else Inr s)"
  by pat_completeness auto
termination
  by (relation "measure work") (auto simp: it_step_work)

declare bin_radix_sort_it_loop.simps [simp del]

text \<open>
  The start of \<open>bin_radix_sort_it\<close> (lines 60 to 62): the work-list array has
  \<open>v.size()\<close> entries, \<open>top\<close> is \<open>-1\<close>, and the first task, the whole vector at bit
  \<open>sizeof(T) * 8 - 1\<close>, is written at \<open>++top\<close>. The task is a tuple of three \<open>int\<close>:
  its size is \<open>v.size()\<close> stored in an \<open>int\<close>.
\<close>

definition it_start :: "'a::len word list \<Rightarrow> error + 'a word it_state" where
  "it_start v =
     (let stack0 = replicate (length v) (0, 0, 0); top0 = - 1 in
      case stack_set stack0 (top0 + 1) (0, int_of_size (length v), int LENGTH('a) - 1) of
        Inl e \<Rightarrow> Inl e
      | Inr stack1 \<Rightarrow> Inr \<lparr>vec = v, stack = stack1, top_i = top0 + 1\<rparr>)"

text \<open>\<open>bin_radix_sort_it\<close>: the start, then the loop; the vector is what it leaves.\<close>

definition bin_radix_sort_it :: "'a::len word list \<Rightarrow> error + 'a word list" where
  "bin_radix_sort_it v =
     (case it_start v of
        Inl e \<Rightarrow> Inl e
      | Inr s0 \<Rightarrow>
          (case bin_radix_sort_it_loop s0 of
             Inl e \<Rightarrow> Inl e
           | Inr s \<Rightarrow> Inr (vec s)))"

section \<open>The comparison of the harness: \<open>equal_vectors\<close>\<close>





section \<open>Calls and passes\<close>

text \<open>
  The passes of the loop as a relation between states, and the recursive calls of
  \<open>bin_radix_sort_rec_inm\<close> as a relation between calls (the vector at the call, the
  span and the bit): the first call on \<open>subspan(0, left)\<close>, the second, once the first
  has returned, on \<open>subspan(left)\<close>.
\<close>

definition it_pass :: "'a::len word it_state \<Rightarrow> 'a word it_state \<Rightarrow> bool" where
  "it_pass s s' \<longleftrightarrow> 0 \<le> top_i s \<and> it_step s = Inr s'"

inductive rec_call ::
  "'a::len word list \<times> span \<times> int \<Rightarrow> 'a word list \<times> span \<times> int \<Rightarrow> bool"
where
  first:
    "\<not> (span_size vview \<le> 1 \<or> bit_i < 0) \<Longrightarrow>
     rec_partition v vview bit_i 0 (int_of_size (span_size vview - 1)) = Inr (v1, left) \<Longrightarrow>
     subspan vview 0 left = Inr lo \<Longrightarrow>
     rec_call (v, vview, bit_i) (v1, lo, bit_i - 1)"
| second:
    "\<not> (span_size vview \<le> 1 \<or> bit_i < 0) \<Longrightarrow>
     rec_partition v vview bit_i 0 (int_of_size (span_size vview - 1)) = Inr (v1, left) \<Longrightarrow>
     subspan vview 0 left = Inr lo \<Longrightarrow>
     bin_radix_sort_rec_inm v1 lo (bit_i - 1) = Inr v2 \<Longrightarrow>
     subspan_from vview left = Inr hi \<Longrightarrow>
     rec_call (v, vview, bit_i) (v2, hi, bit_i - 1)"

code_pred rec_call .

section \<open>Notions used to state the properties\<close>

text \<open>
  The elements of the range that starts at \<open>off\<close> and has \<open>n\<close> elements, and what it
  means for an operation on that range to leave the rest of the vector alone.
\<close>

definition slice :: "nat \<Rightarrow> nat \<Rightarrow> 'a list \<Rightarrow> 'a list" where
  "slice off n v = take n (drop off v)"

definition same_outside :: "nat \<Rightarrow> nat \<Rightarrow> 'a list \<Rightarrow> 'a list \<Rightarrow> bool" where
  "same_outside off n v v' \<longleftrightarrow>
     length v' = length v \<and> (\<forall>i<length v. i < off \<or> off + n \<le> i \<longrightarrow> v' ! i = v ! i)"

text \<open>
  The order of unsigned integers is decided by the highest bit in which two values
  differ. \<open>agree_above b xs\<close>: the elements of \<open>xs\<close> have the same bits above bit \<open>b\<close>.
\<close>

definition agree_above :: "int \<Rightarrow> 'a::len word list \<Rightarrow> bool" where
  "agree_above b xs \<longleftrightarrow>
     (\<forall>x\<in>set xs. \<forall>y\<in>set xs. drop_bit (nat (b + 1)) x = drop_bit (nat (b + 1)) y)"

text \<open>A task \<open>(start, size, bit)\<close> whose range lies in a vector of \<open>n\<close> elements.\<close>

definition task_in_bounds :: "nat \<Rightarrow> task \<Rightarrow> bool" where
  "task_in_bounds n t =
     (case t of (start, size_i, bit_i) \<Rightarrow> 0 \<le> start \<and> 0 \<le> size_i \<and> start + size_i \<le> int n)"

text \<open>
  The invariant of the outer loop: the vector keeps its length and every task of the
  live part of the work-list lies in the vector.
\<close>

definition it_bounds :: "nat \<Rightarrow> 'e it_state \<Rightarrow> bool" where
  "it_bounds n s \<longleftrightarrow>
     length (vec s) = n \<and> (\<forall>t\<in>set (live s). task_in_bounds n t)"

text \<open>
  A task whose fields are \<open>int\<close>s of the source and whose range, when the size is not
  negative, ends at or below \<open>INT_MAX\<close> and in a vector of \<open>n\<close> elements; and the states
  whose live tasks are all such.
\<close>

definition task_fits :: "nat \<Rightarrow> task \<Rightarrow> bool" where
  "task_fits n t =
     (case t of (start, size_i, bit_i) \<Rightarrow>
        0 \<le> start \<and> - INT_MAX - 1 \<le> size_i \<and> size_i \<le> INT_MAX
        \<and> (0 \<le> size_i \<longrightarrow> start + size_i \<le> INT_MAX \<and> start + size_i \<le> int n))"

definition it_ints :: "'e it_state \<Rightarrow> bool" where
  "it_ints s \<longleftrightarrow> (\<forall>t\<in>set (live s). task_fits (length (vec s)) t)"


text \<open>
  The indices of a task's range, and work-lists whose ranges do not overlap. What the
  loop owes a task: its range is permuted, and sorted when its elements have the same
  bits above the task's bit.
\<close>

definition task_range :: "task \<Rightarrow> nat set" where
  "task_range t = (case t of (start, size_i, bit_i) \<Rightarrow> {nat start ..< nat (start + size_i)})"

fun tasks_disjoint :: "task list \<Rightarrow> bool" where
  "tasks_disjoint [] = True"
| "tasks_disjoint (t # ts) =
     ((\<forall>u\<in>set ts. task_range t \<inter> task_range u = {}) \<and> tasks_disjoint ts)"

definition task_done :: "task \<Rightarrow> 'a::len word list \<Rightarrow> 'a word list \<Rightarrow> bool" where
  "task_done t v v' =
     (case t of (start, size_i, bit_i) \<Rightarrow>
        mset (slice (nat start) (nat size_i) v') = mset (slice (nat start) (nat size_i) v)
        \<and> (agree_above bit_i (slice (nat start) (nat size_i) v)
             \<longrightarrow> sorted (slice (nat start) (nat size_i) v')))"

text \<open>
  The task at index \<open>i\<close> of the live work-list has a bit of at most \<open>w - 1 - i\<close>.
\<close>

definition it_depth :: "nat \<Rightarrow> 'e it_state \<Rightarrow> bool" where
  "it_depth w s \<longleftrightarrow>
     (\<forall>i<length (live s). snd (snd (live s ! i)) + int i \<le> int w - 1)"

text \<open>
  \<open>it_splits\<close>: the pass from this state partitions, that is, the task on top has at
  least two elements and a bit \<open>\<ge> 0\<close>. \<open>it_partitions\<close> counts the partition steps
  that the loop makes from a state, until the work-list is empty or a pass fails.
  A task of \<open>n \<ge> 1\<close> elements at bit \<open>b\<close> costs at most \<open>(b + 1) * (n - 1)\<close> partition
  steps.
\<close>

definition it_splits :: "'e it_state \<Rightarrow> bool" where
  "it_splits s =
     (case stack_at (stack s) (top_i s) of
        Inl e \<Rightarrow> False
      | Inr (start, size_i, bit_i) \<Rightarrow> \<not> (size_i \<le> 1 \<or> bit_i < 0))"

function it_partitions :: "'a::len word it_state \<Rightarrow> nat" where
  "it_partitions s =
     (if 0 \<le> top_i s then
        (case it_step s of
           Inl e \<Rightarrow> 0
         | Inr s' \<Rightarrow> (if it_splits s then 1 else 0) + it_partitions s')
      else 0)"
  by pat_completeness auto
termination
  by (relation "measure work") (auto simp: it_step_work)

declare it_partitions.simps [simp del]

definition task_cost :: "task \<Rightarrow> nat" where
  "task_cost t = (case t of (start, size_i, bit_i) \<Rightarrow> nat (bit_i + 1) * (nat size_i - 1))"

definition it_cost :: "'e it_state \<Rightarrow> nat" where
  "it_cost s = sum_list (map task_cost (live s))"

section \<open>Sizes held in an \<open>int\<close>\<close>

text \<open>A size below \<open>2^31\<close> is itself as an \<open>int\<close>; the size \<open>2^31 + 1\<close> less one is \<open>INT_MIN\<close>.\<close>

lemma int_of_size_id: "n < 2 ^ 31 \<Longrightarrow> int_of_size n = int n"
  by (simp add: int_of_size_def)

lemma int_of_size_pred:
  assumes "1 \<le> n" "n < 2 ^ 31"
  shows "int_of_size (n - 1) = int n - 1"
proof -
  have "n - 1 < 2 ^ 31" using assms(2) by simp
  then have "int_of_size (n - 1) = int (n - 1)" by (rule int_of_size_id)
  then show ?thesis using assms(1) by simp
qed

lemma int_of_size_wrap: "int_of_size (2 ^ 31) = - (2 ^ 31)"
  by (simp add: int_of_size_def)

section \<open>The partition loop\<close>

text \<open>The test \<open>((x >> bit) & 1) == 0\<close> of the loops says that bit \<open>bit\<close> of \<open>x\<close> is 0.\<close>

lemma bit_test: "drop_bit n x AND 1 = 0 \<longleftrightarrow> \<not> bit x n" for x :: "'a::len word"
  by (simp add: and_one_eq bit_iff_odd_drop_bit flip: even_iff_mod_2_eq_zero)

lemma vec_at_Inr: "vec_at v i = Inr x \<longleftrightarrow> 0 \<le> i \<and> i < int (length v) \<and> v ! nat i = x"
  by (auto simp: vec_at_def)

lemma vec_swap_Inr:
  assumes "0 \<le> i" "i < int (length v)" "0 \<le> j" "j < int (length v)"
  shows "vec_swap v i j = Inr (v[nat i := v ! nat j, nat j := v ! nat i])"
  using assms by (simp add: vec_swap_def vec_at_def vec_set_def)

lemma mset_swap_nat:
  assumes "i < length v" "j < length v"
  shows "mset (v[i := v ! j, j := v ! i]) = mset v"
  using assms by (simp add: mset_swap)

text \<open>
  The loop from \<open>left\<close> and \<open>right\<close> inside the vector: it returns, it permutes the
  vector, it leaves every element outside \<open>left .. right\<close> alone, and it ends with the
  elements whose bit is 0 in \<open>left ..< l\<close> and those whose bit is 1 in \<open>l .. right\<close>.
\<close>

lemma it_partition_spec:
  assumes "0 \<le> left" "right < int (length v)"
  shows "\<exists>v' l. it_partition v b left right = Inr (v', l)
           \<and> length v' = length v \<and> mset v' = mset v
           \<and> (\<forall>i. 0 \<le> i \<and> i < int (length v) \<and> (i < left \<or> right < i)
                  \<longrightarrow> v' ! nat i = v ! nat i)
           \<and> left \<le> l \<and> (left \<le> right + 1 \<longrightarrow> l \<le> right + 1)
           \<and> (\<forall>i. left \<le> i \<and> i < l \<longrightarrow> \<not> bit (v' ! nat i) (nat b))
           \<and> (\<forall>i. l \<le> i \<and> i \<le> right \<longrightarrow> bit (v' ! nat i) (nat b))"
  using assms
proof (induction v b left right rule: it_partition.induct)
  case (1 v b left right)
  show ?case
  proof (cases "left \<le> right")
    case False
    then show ?thesis by (auto simp: it_partition.simps [of v b left right])
  next
    case True
    have at: "vec_at v left = Inr (v ! nat left)"
      using "1.prems" True by (simp add: vec_at_def)
    show ?thesis
    proof (cases "drop_bit (nat b) (v ! nat left) AND 1 = 0")
      case zero: True
      have "0 \<le> left + 1" using "1.prems" by simp
      from "1.IH"(1) [OF True at zero this "1.prems"(2)]
      obtain v' l where
        run: "it_partition v b (left + 1) right = Inr (v', l)" and
        len: "length v' = length v" and ms: "mset v' = mset v" and
        frame: "\<And>i. 0 \<le> i \<Longrightarrow> i < int (length v) \<Longrightarrow> i < left + 1 \<or> right < i
                  \<Longrightarrow> v' ! nat i = v ! nat i" and
        lo: "left + 1 \<le> l" and hi: "l \<le> right + 1" and
        zeros: "\<And>i. left + 1 \<le> i \<Longrightarrow> i < l \<Longrightarrow> \<not> bit (v' ! nat i) (nat b)" and
        ones: "\<And>i. l \<le> i \<Longrightarrow> i \<le> right \<Longrightarrow> bit (v' ! nat i) (nat b)"
        using True by auto
      have here: "it_partition v b left right = Inr (v', l)"
        using True at zero run by (simp add: it_partition.simps [of v b left right])
      have "v' ! nat left = v ! nat left"
        using frame [of left] "1.prems" True by simp
      then have z0: "\<not> bit (v' ! nat left) (nat b)"
        using zero by (simp add: bit_test)
      have zeros': "\<not> bit (v' ! nat i) (nat b)" if "left \<le> i" "i < l" for i
        using that z0 zeros [of i] by (cases "i = left") auto
      show ?thesis
        using here len ms frame lo hi zeros' ones by auto
    next
      case one: False
      let ?v1 = "v[nat left := v ! nat right, nat right := v ! nat left]"
      have inb: "0 \<le> left" "left < int (length v)" "0 \<le> right" "right < int (length v)"
        using "1.prems" True by simp_all
      have sw: "vec_swap v left right = Inr ?v1"
        using inb by (rule vec_swap_Inr)
      have len1: "length ?v1 = length v" by simp
      have ms1: "mset ?v1 = mset v"
        using inb mset_swap_nat [of "nat left" v "nat right"] by simp
      have "right - 1 < int (length ?v1)" using inb by simp
      from "1.IH"(2) [OF True at one sw inb(1) this]
      obtain v' l where
        run: "it_partition ?v1 b left (right - 1) = Inr (v', l)" and
        len: "length v' = length ?v1" and ms: "mset v' = mset ?v1" and
        frame: "\<And>i. 0 \<le> i \<Longrightarrow> i < int (length ?v1) \<Longrightarrow> i < left \<or> right - 1 < i
                  \<Longrightarrow> v' ! nat i = ?v1 ! nat i" and
        lo: "left \<le> l" and hi: "l \<le> right - 1 + 1" and
        zeros: "\<And>i. left \<le> i \<Longrightarrow> i < l \<Longrightarrow> \<not> bit (v' ! nat i) (nat b)" and
        ones: "\<And>i. l \<le> i \<Longrightarrow> i \<le> right - 1 \<Longrightarrow> bit (v' ! nat i) (nat b)"
        using True by auto
      have here: "it_partition v b left right = Inr (v', l)"
        using True at one sw run by (simp add: it_partition.simps [of v b left right])
      have "v' ! nat right = ?v1 ! nat right"
        using frame [of right] inb by simp
      also have "\<dots> = v ! nat left"
        using inb by simp
      finally have o1: "bit (v' ! nat right) (nat b)"
        using one by (simp add: bit_test)
      have ones': "bit (v' ! nat i) (nat b)" if "l \<le> i" "i \<le> right" for i
        using that o1 ones [of i] by (cases "i = right") auto
      have frame': "v' ! nat i = v ! nat i"
        if "0 \<le> i" "i < int (length v)" "i < left \<or> right < i" for i
      proof -
        have "v' ! nat i = ?v1 ! nat i" using frame [of i] that by auto
        moreover have "nat i \<noteq> nat left" "nat i \<noteq> nat right"
          using that inb True by auto
        ultimately show ?thesis by simp
      qed
      show ?thesis
        using here len ms ms1 frame' lo hi zeros ones' by auto
    qed
  qed
qed

text \<open>
  The loop of the recursive variant is the loop of the iterative one, shifted by where
  the span starts: \<open>vview[i]\<close> is \<open>v[span_data vview + i]\<close>.
\<close>

lemma span_at_Inr:
  assumes "0 \<le> i" "i < int (span_size vview)" "span_data vview + span_size vview \<le> length v"
  shows "span_at v vview i = Inr (v ! (span_data vview + nat i))"
proof -
  have "span_data vview + nat i < length v" using assms by linarith
  then show ?thesis using assms by (simp add: span_at_def)
qed

lemma span_swap_Inr:
  assumes "0 \<le> i" "i < int (span_size vview)" "0 \<le> j" "j < int (span_size vview)"
    "span_data vview + span_size vview \<le> length v"
  shows "span_swap v vview i j =
         Inr (v[span_data vview + nat i := v ! (span_data vview + nat j),
                span_data vview + nat j := v ! (span_data vview + nat i)])"
proof -
  have "span_data vview + nat i < length v" "span_data vview + nat j < length v"
    using assms by linarith+
  then show ?thesis using assms by (simp add: span_swap_def span_at_def)
qed

lemma rec_partition_eq_it:
  assumes "0 \<le> left" "right < int (span_size vview)"
    "span_data vview + span_size vview \<le> length v" "right < INT_MAX"
  shows "rec_partition v vview b left right =
         (case it_partition v b (int (span_data vview) + left) (int (span_data vview) + right) of
            Inl e \<Rightarrow> Inl e
          | Inr (v', l) \<Rightarrow> Inr (v', l - int (span_data vview)))"
  using assms
proof (induction v vview b left right rule: rec_partition.induct)
  case (1 v vview b left right)
  let ?off = "int (span_data vview)"
  show ?case
  proof (cases "left \<le> right")
    case False
    then show ?thesis
      by (simp add: rec_partition.simps [of v vview b left right]
          it_partition.simps [of v b "?off + left" "?off + right"])
  next
    case True
    have inb: "0 \<le> left" "left < int (span_size vview)" "0 \<le> right"
      "right < int (span_size vview)"
      using "1.prems" True by simp_all
    have idx: "nat (?off + left) = span_data vview + nat left"
      "nat (?off + right) = span_data vview + nat right"
      using inb by (simp_all add: nat_add_distrib)
    have sa: "span_at v vview left = Inr (v ! (span_data vview + nat left))"
      using inb(1,2) "1.prems"(3) by (rule span_at_Inr)
    have va: "vec_at v (?off + left) = Inr (v ! (span_data vview + nat left))"
      using inb "1.prems"(3) idx by (simp add: vec_at_def)
    show ?thesis
    proof (cases "drop_bit (nat b) (v ! (span_data vview + nat left)) AND 1 = 0")
      case zero: True
      have lt: "left < INT_MAX" using True "1.prems"(4) by simp
      have "0 \<le> left + 1" using inb by simp
      from "1.IH"(1) [OF True sa zero lt this "1.prems"(2,3,4)]
      have "rec_partition v vview b (left + 1) right =
            (case it_partition v b (?off + left + 1) (?off + right) of
               Inl e \<Rightarrow> Inl e
             | Inr (v', l) \<Rightarrow> Inr (v', l - ?off))"
        by (simp add: add.assoc)
      then show ?thesis
        using True sa va zero lt
        by (simp add: rec_partition.simps [of v vview b left right]
            it_partition.simps [of v b "?off + left" "?off + right"])
    next
      case one: False
      let ?v1 = "v[span_data vview + nat left := v ! (span_data vview + nat right),
                   span_data vview + nat right := v ! (span_data vview + nat left)]"
      have ss: "span_swap v vview left right = Inr ?v1"
        using inb "1.prems"(3) by (rule span_swap_Inr)
      have "vec_swap v (?off + left) (?off + right) =
            Inr (v[nat (?off + left) := v ! nat (?off + right),
                   nat (?off + right) := v ! nat (?off + left)])"
        using inb "1.prems"(3) by (intro vec_swap_Inr) simp_all
      then have vs: "vec_swap v (?off + left) (?off + right) = Inr ?v1"
        by (simp only: idx)
      have "right - 1 < int (span_size vview)" using inb by simp
      moreover have "span_data vview + span_size vview \<le> length ?v1"
        using "1.prems"(3) by simp
      moreover have "right - 1 < INT_MAX" using "1.prems"(4) by simp
      ultimately have "rec_partition ?v1 vview b left (right - 1) =
            (case it_partition ?v1 b (?off + left) (?off + (right - 1)) of
               Inl e \<Rightarrow> Inl e
             | Inr (v', l) \<Rightarrow> Inr (v', l - ?off))"
        using "1.IH"(2) [OF True sa one ss inb(1)] by simp
      moreover have "?off + (right - 1) = ?off + right - 1" by simp
      ultimately show ?thesis
        using True sa va one ss vs
        by (simp add: rec_partition.simps [of v vview b left right]
            it_partition.simps [of v b "?off + left" "?off + right"])
    qed
  qed
qed

text \<open>
  The loop reads only \<open>left .. right\<close>: on a vector that has the same elements there, it
  returns the same boundary and the same elements there.
\<close>

lemma it_partition_local:
  assumes "0 \<le> left" "right < int (length v)" "length w = length v"
    "\<forall>i. left \<le> i \<and> i \<le> right \<longrightarrow> w ! nat i = v ! nat i"
    "it_partition v b left right = Inr (v', l)"
  shows "\<exists>w'. it_partition w b left right = Inr (w', l)
           \<and> (\<forall>i. left \<le> i \<and> i \<le> right \<longrightarrow> w' ! nat i = v' ! nat i)"
  using assms
proof (induction v b left right arbitrary: w rule: it_partition.induct)
  case (1 v b left right)
  show ?case
  proof (cases "left \<le> right")
    case False
    then have "it_partition w b left right = Inr (w, left)"
      by (simp add: it_partition.simps [of w b left right])
    moreover have "l = left"
      using "1.prems"(5) False by (simp add: it_partition.simps [of v b left right])
    ultimately show ?thesis using False by auto
  next
    case True
    have inb: "0 \<le> left" "left < int (length v)" "0 \<le> right" "right < int (length v)"
      using "1.prems" True by simp_all
    have agree: "w ! nat i = v ! nat i" if "left \<le> i" "i \<le> right" for i
      using that "1.prems"(4) by simp
    have at: "vec_at v left = Inr (v ! nat left)"
      using inb by (simp add: vec_at_def)
    have at_w: "vec_at w left = Inr (v ! nat left)"
      using inb "1.prems"(3) agree [of left] True by (simp add: vec_at_def)
    show ?thesis
    proof (cases "drop_bit (nat b) (v ! nat left) AND 1 = 0")
      case zero: True
      have run: "it_partition v b (left + 1) right = Inr (v', l)"
        using "1.prems"(5) True at zero by (simp add: it_partition.simps [of v b left right])
      have l1: "0 \<le> left + 1" using inb by simp
      have agree0: "\<forall>i. left + 1 \<le> i \<and> i \<le> right \<longrightarrow> w ! nat i = v ! nat i"
        using agree by simp
      from "1.IH"(1) [OF True at zero l1 inb(4) "1.prems"(3) agree0 run] obtain w' where
        run_w: "it_partition w b (left + 1) right = Inr (w', l)" and
        same: "\<And>i. left + 1 \<le> i \<Longrightarrow> i \<le> right \<Longrightarrow> w' ! nat i = v' ! nat i"
        by blast
      have here: "it_partition w b left right = Inr (w', l)"
        using True at_w zero run_w by (simp add: it_partition.simps [of w b left right])
      have "0 \<le> left + 1" "right < int (length w)" using inb "1.prems"(3) by simp_all
      from it_partition_spec [OF this, of b] run_w
      have "w' ! nat left = w ! nat left" using inb "1.prems"(3) by auto
      moreover
      have "0 \<le> left + 1" "right < int (length v)" using inb by simp_all
      from it_partition_spec [OF this, of b] run
      have "v' ! nat left = v ! nat left" using inb by auto
      ultimately have "w' ! nat left = v' ! nat left" using agree [of left] True by simp
      then have "w' ! nat i = v' ! nat i" if "left \<le> i" "i \<le> right" for i
        using that same [of i] by (cases "i = left") auto
      then show ?thesis using here by blast
    next
      case one: False
      let ?v1 = "v[nat left := v ! nat right, nat right := v ! nat left]"
      let ?w1 = "w[nat left := w ! nat right, nat right := w ! nat left]"
      have sw: "vec_swap v left right = Inr ?v1" using inb by (rule vec_swap_Inr)
      have sw_w: "vec_swap w left right = Inr ?w1"
        using inb "1.prems"(3) by (intro vec_swap_Inr) simp_all
      have run: "it_partition ?v1 b left (right - 1) = Inr (v', l)"
        using "1.prems"(5) True at one sw by (simp add: it_partition.simps [of v b left right])
      have ends: "w ! nat left = v ! nat left" "w ! nat right = v ! nat right"
        using agree [of left] agree [of right] True by simp_all
      have agree1: "\<forall>i. left \<le> i \<and> i \<le> right - 1 \<longrightarrow> ?w1 ! nat i = ?v1 ! nat i"
      proof (intro allI impI)
        fix i assume i: "left \<le> i \<and> i \<le> right - 1"
        then have "nat i < length v" "nat i < length w" "nat i \<noteq> nat right"
          using inb "1.prems"(3) by auto
        then show "?w1 ! nat i = ?v1 ! nat i"
          using ends agree [of i] i by (cases "nat i = nat left") auto
      qed
      have "right - 1 < int (length ?v1)" "length ?w1 = length ?v1"
        using inb "1.prems"(3) by simp_all
      from "1.IH"(2) [OF True at one sw inb(1) this agree1 run] obtain w' where
        run_w: "it_partition ?w1 b left (right - 1) = Inr (w', l)" and
        same: "\<And>i. left \<le> i \<Longrightarrow> i \<le> right - 1 \<Longrightarrow> w' ! nat i = v' ! nat i"
        by blast
      have here: "it_partition w b left right = Inr (w', l)"
        using True at_w one sw_w run_w by (simp add: it_partition.simps [of w b left right])
      have "0 \<le> left" "right - 1 < int (length ?w1)" using inb "1.prems"(3) by simp_all
      from it_partition_spec [OF this, of b] run_w
      have "w' ! nat right = ?w1 ! nat right" using inb "1.prems"(3) by auto
      moreover
      have "0 \<le> left" "right - 1 < int (length ?v1)" using inb by simp_all
      from it_partition_spec [OF this, of b] run
      have "v' ! nat right = ?v1 ! nat right" using inb by auto
      moreover have "?w1 ! nat right = ?v1 ! nat right"
        using inb "1.prems"(3) ends by simp
      ultimately have "w' ! nat right = v' ! nat right" by simp
      then have "w' ! nat i = v' ! nat i" if "left \<le> i" "i \<le> right" for i
        using that same [of i] by (cases "i = right") auto
      then show ?thesis using here by blast
    qed
  qed
qed

section \<open>Ranges of the vector\<close>

lemma length_slice: "off + n \<le> length v \<Longrightarrow> length (slice off n v) = n"
  by (simp add: slice_def)

lemma nth_slice: "off + n \<le> length v \<Longrightarrow> i < n \<Longrightarrow> slice off n v ! i = v ! (off + i)"
  by (simp add: slice_def)

lemma slice_whole: "slice 0 (length v) v = v"
  by (simp add: slice_def)

lemma slice_append: "slice off (m + k) v = slice off m v @ slice (off + m) k v"
  by (simp add: slice_def take_add add.commute [of off m])

lemma slice_split:
  assumes "m \<le> n"
  shows "slice off n v = slice off m v @ slice (off + m) (n - m) v"
  using slice_append [of off m "n - m" v] assms by simp

lemma list_split3:
  assumes "off + n \<le> length v"
  shows "v = take off v @ slice off n v @ drop (off + n) v"
proof -
  have "drop (off + n) v = drop n (drop off v)"
    by (simp add: add.commute)
  then have "slice off n v @ drop (off + n) v = drop off v"
    by (simp only: slice_def append_take_drop_id)
  then show ?thesis by (simp only: append_take_drop_id)
qed

lemma in_set_sliceD:
  assumes "off + n \<le> length v" "x \<in> set (slice off n v)"
  obtains i where "off \<le> i" "i < off + n" "x = v ! i"
proof -
  from assms(2) obtain j where "j < length (slice off n v)" "x = slice off n v ! j"
    by (auto simp: in_set_conv_nth)
  then have "j < n" "x = v ! (off + j)"
    using assms(1) by (simp_all add: length_slice nth_slice)
  then show thesis by (intro that [of "off + j"]) simp_all
qed

lemma slice_eqI:
  assumes "length v' = length v" "off + n \<le> length v"
    "\<And>i. off \<le> i \<Longrightarrow> i < off + n \<Longrightarrow> v' ! i = v ! i"
  shows "slice off n v' = slice off n v"
proof (rule nth_equalityI)
  show "length (slice off n v') = length (slice off n v)"
    using assms(1,2) by (simp add: length_slice)
  fix i assume "i < length (slice off n v')"
  then have "i < n" using assms(1,2) by (simp add: length_slice)
  then show "slice off n v' ! i = slice off n v ! i"
    using assms by (simp add: nth_slice)
qed

lemma same_outside_refl: "same_outside off n v v"
  by (simp add: same_outside_def)

lemma same_outside_length: "same_outside off n v v' \<Longrightarrow> length v' = length v"
  by (simp add: same_outside_def)

lemma same_outside_trans:
  assumes "same_outside off n v v1" "same_outside off n v1 v2"
  shows "same_outside off n v v2"
  using assms by (auto simp: same_outside_def)

lemma same_outside_mono:
  assumes "same_outside a k v v'" "off \<le> a" "a + k \<le> off + n"
  shows "same_outside off n v v'"
  using assms by (auto simp: same_outside_def)

lemma same_outside_slice:
  assumes "same_outside off n v v'" "a + k \<le> off \<or> off + n \<le> a" "a + k \<le> length v"
  shows "slice a k v' = slice a k v"
proof (rule nth_equalityI)
  have len: "length v' = length v" using assms(1) by (rule same_outside_length)
  show "length (slice a k v') = length (slice a k v)"
    using assms(3) len by (simp add: length_slice)
  fix i assume "i < length (slice a k v')"
  then have i: "i < k" using assms(3) len by (simp add: length_slice)
  then have "a + i < length v" "a + i < off \<or> off + n \<le> a + i"
    using assms(2,3) by auto
  then have "v' ! (a + i) = v ! (a + i)"
    using assms(1) by (auto simp: same_outside_def)
  then show "slice a k v' ! i = slice a k v ! i"
    using i assms(3) len by (simp add: nth_slice)
qed

lemma same_outside_take:
  assumes "same_outside off n v v'" "off + n \<le> length v"
  shows "take off v' = take off v"
  using same_outside_slice [OF assms(1), of 0 off] assms(2) by (simp add: slice_def)

lemma same_outside_drop:
  assumes "same_outside off n v v'" "off + n \<le> length v"
  shows "drop (off + n) v' = drop (off + n) v"
proof -
  have len: "length v' = length v" using assms(1) by (rule same_outside_length)
  have "slice (off + n) (length v - (off + n)) v' = slice (off + n) (length v - (off + n)) v"
    using assms by (intro same_outside_slice [OF assms(1)]) simp_all
  then show ?thesis by (simp add: slice_def len)
qed

text \<open>Inside and outside together: the range is permuted exactly when the vector is.\<close>

lemma same_outside_mset:
  assumes "same_outside off n v v'" "off + n \<le> length v"
  shows "mset (slice off n v') = mset (slice off n v) \<longleftrightarrow> mset v' = mset v"
proof -
  have len: "length v' = length v" using assms(1) by (rule same_outside_length)
  have "mset v = mset (take off v) + mset (slice off n v) + mset (drop (off + n) v)"
    using list_split3 [OF assms(2)] by (metis mset_append add.assoc)
  moreover have "mset v' = mset (take off v') + mset (slice off n v') + mset (drop (off + n) v')"
    using list_split3 [of off n v'] assms(2) len by (metis mset_append add.assoc)
  ultimately show ?thesis
    using same_outside_take [OF assms] same_outside_drop [OF assms] by auto
qed

text \<open>
  The partition loop of the iterative variant on the range \<open>off\<close>, \<open>n\<close>: the boundary is
  \<open>m\<close> elements into the range.
\<close>

lemma partition_range:
  assumes "off + n \<le> length v"
  obtains v' m where
    "it_partition v b (int off) (int off + int n - 1) = Inr (v', int off + int m)"
    "m \<le> n" "same_outside off n v v'" "mset v' = mset v"
    "\<forall>x\<in>set (slice off m v'). \<not> bit x (nat b)"
    "\<forall>x\<in>set (slice (off + m) (n - m) v'). bit x (nat b)"
proof -
  let ?left = "int off" and ?right = "int off + int n - 1"
  have "0 \<le> ?left" "?right < int (length v)" using assms by simp_all
  from it_partition_spec [OF this, of b]
  obtain v' l where
    run: "it_partition v b ?left ?right = Inr (v', l)" and
    len: "length v' = length v" and ms: "mset v' = mset v" and
    frame: "\<And>i. 0 \<le> i \<Longrightarrow> i < int (length v) \<Longrightarrow> i < ?left \<or> ?right < i
              \<Longrightarrow> v' ! nat i = v ! nat i" and
    lo: "?left \<le> l" and hi: "l \<le> ?right + 1" and
    zeros: "\<And>i. ?left \<le> i \<Longrightarrow> i < l \<Longrightarrow> \<not> bit (v' ! nat i) (nat b)" and
    ones: "\<And>i. l \<le> i \<Longrightarrow> i \<le> ?right \<Longrightarrow> bit (v' ! nat i) (nat b)"
    by auto
  define m where "m = nat (l - int off)"
  have l: "l = int off + int m" using lo by (simp add: m_def)
  have mn: "m \<le> n" using hi l by simp
  have so: "same_outside off n v v'"
    unfolding same_outside_def
  proof (intro conjI allI impI)
    show "length v' = length v" by (rule len)
    fix i assume "i < length v" "i < off \<or> off + n \<le> i"
    then show "v' ! i = v ! i" using frame [of "int i"] by auto
  qed
  have z: "\<forall>x\<in>set (slice off m v'). \<not> bit x (nat b)"
  proof
    fix x assume x: "x \<in> set (slice off m v')"
    have "off + m \<le> length v'" using mn assms len by simp
    then obtain i where "off \<le> i" "i < off + m" "x = v' ! i"
      using x by (rule in_set_sliceD)
    then show "\<not> bit x (nat b)" using zeros [of "int i"] l by simp
  qed
  have o: "\<forall>x\<in>set (slice (off + m) (n - m) v'). bit x (nat b)"
  proof
    fix x assume x: "x \<in> set (slice (off + m) (n - m) v')"
    have "off + m + (n - m) \<le> length v'" using mn assms len by simp
    then obtain i where "off + m \<le> i" "i < off + m + (n - m)" "x = v' ! i"
      using x by (rule in_set_sliceD)
    then show "bit x (nat b)" using ones [of "int i"] l mn by simp
  qed
  from run l mn so ms z o show thesis by (intro that [of v' m]) simp_all
qed

text \<open>
  The loop of the recursive variant on a span of \<open>1 \<le> n < 2^31\<close> elements, from \<open>left = 0\<close>
  and \<open>right = vview.size() - 1\<close>: the same vector and the same boundary as the loop of
  the iterative variant on the range of the span.
\<close>

lemma rec_partition_range:
  assumes "off + n \<le> length v" "1 \<le> n" "n < 2 ^ 31"
  obtains v' m where
    "it_partition v b (int off) (int off + int n - 1) = Inr (v', int off + int m)"
    "rec_partition v \<lparr>span_data = off, span_size = n\<rparr> b 0 (int_of_size (n - 1))
       = Inr (v', int m)"
    "m \<le> n" "same_outside off n v v'" "mset v' = mset v"
    "\<forall>x\<in>set (slice off m v'). \<not> bit x (nat b)"
    "\<forall>x\<in>set (slice (off + m) (n - m) v'). bit x (nat b)"
proof -
  obtain v' m where
    run: "it_partition v b (int off) (int off + int n - 1) = Inr (v', int off + int m)" and
    rest: "m \<le> n" "same_outside off n v v'" "mset v' = mset v"
      "\<forall>x\<in>set (slice off m v'). \<not> bit x (nat b)"
      "\<forall>x\<in>set (slice (off + m) (n - m) v'). bit x (nat b)"
    by (rule partition_range [OF assms(1), of b])
  let ?vview = "\<lparr>span_data = off, span_size = n\<rparr>"
  have right: "int_of_size (n - 1) = int n - 1" using assms(2,3) by (rule int_of_size_pred)
  have "it_partition v b (int (span_data ?vview) + 0) (int (span_data ?vview) + (int n - 1))
        = Inr (v', int off + int m)"
    using run by (simp add: add_diff_eq)
  moreover have "rec_partition v ?vview b 0 (int n - 1) =
        (case it_partition v b (int (span_data ?vview) + 0)
                (int (span_data ?vview) + (int n - 1)) of
           Inl e \<Rightarrow> Inl e
         | Inr (v', l) \<Rightarrow> Inr (v', l - int (span_data ?vview)))"
    using assms by (intro rec_partition_eq_it) simp_all
  ultimately have "rec_partition v ?vview b 0 (int_of_size (n - 1)) = Inr (v', int m)"
    using right by simp
  with run rest show thesis by (intro that [of v' m])
qed

text \<open>
  One partition step permutes its range: the values of the range before the step are, as
  a multiset, the values of the two parts after it. Both loops give the same vector and
  the same boundary. (A task of the iterative variant has an \<open>int\<close> for its size, below
  \<open>2^31\<close>.)
\<close>

lemma partition_step_mset:
  assumes "off + n \<le> length v" "1 \<le> n" "n < 2 ^ 31"
  shows "\<exists>v' m. it_partition v b (int off) (int off + int n - 1) = Inr (v', int off + int m)
           \<and> rec_partition v \<lparr>span_data = off, span_size = n\<rparr> b 0 (int_of_size (n - 1))
               = Inr (v', int m)
           \<and> m \<le> n \<and> mset v' = mset v
           \<and> mset (slice off m v') + mset (slice (off + m) (n - m) v') = mset (slice off n v)"
proof -
  obtain v' m where
    it: "it_partition v b (int off) (int off + int n - 1) = Inr (v', int off + int m)" and
    re: "rec_partition v \<lparr>span_data = off, span_size = n\<rparr> b 0 (int_of_size (n - 1))
         = Inr (v', int m)" and
    mn: "m \<le> n" and so: "same_outside off n v v'" and ms: "mset v' = mset v" and
    "\<forall>x\<in>set (slice off m v'). \<not> bit x (nat b)"
    "\<forall>x\<in>set (slice (off + m) (n - m) v'). bit x (nat b)"
    by (rule rec_partition_range [OF assms, of b])
  have "mset (slice off n v') = mset (slice off n v)"
    using same_outside_mset [OF so assms(1)] ms by simp
  moreover have "slice off n v' = slice off m v' @ slice (off + m) (n - m) v'"
    using mn by (rule slice_split)
  ultimately have "mset (slice off m v') + mset (slice (off + m) (n - m) v') = mset (slice off n v)"
    by simp
  with it re mn ms show ?thesis by blast
qed

section \<open>Bits and the order of words\<close>

text \<open>
  Of two words with the same bits above bit \<open>k\<close>, the one with bit \<open>k\<close> clear is below
  the one with bit \<open>k\<close> set.
\<close>

lemma drop_bit_step:
  fixes x y :: "'a::len word"
  assumes "drop_bit (Suc k) x = drop_bit (Suc k) y" "bit x k \<longleftrightarrow> bit y k"
  shows "drop_bit k x = drop_bit k y"
proof (rule bit_eqI)
  fix i
  show "bit (drop_bit k x) i \<longleftrightarrow> bit (drop_bit k y) i"
  proof (cases i)
    case 0
    then show ?thesis using assms(2) by (simp add: bit_drop_bit_eq)
  next
    case (Suc j)
    have "bit (drop_bit (Suc k) x) j \<longleftrightarrow> bit (drop_bit (Suc k) y) j"
      using assms(1) by simp
    then show ?thesis using Suc by (simp add: bit_drop_bit_eq)
  qed
qed

lemma unat_drop_bit_div: "unat (drop_bit n x) = unat x div 2 ^ n" for x :: "'a::len word"
  by (simp only: unat_drop_bit_eq) (simp only: drop_bit_eq_div)

lemma div_power_Suc: "a div 2 ^ k div 2 = a div 2 ^ Suc k" for a :: nat
  by (simp only: power_Suc2 div_mult2_eq)

lemma even_odd_half_less:
  fixes X Y :: nat
  assumes "X div 2 = Y div 2" "even X" "odd Y"
  shows "X < Y"
  using assms by presburger

lemma div_less_imp_less:
  fixes a b c :: nat
  assumes "a div c < b div c"
  shows "a < b"
proof (rule ccontr)
  assume "\<not> a < b"
  then have "b div c \<le> a div c" by (simp add: div_le_mono)
  with assms show False by simp
qed

lemma word_bit_less:
  fixes x y :: "'a::len word"
  assumes "drop_bit (Suc k) x = drop_bit (Suc k) y" "\<not> bit x k" "bit y k"
  shows "x < y"
proof -
  let ?X = "unat x div 2 ^ k" and ?Y = "unat y div 2 ^ k"
  have "unat (drop_bit (Suc k) x) = unat (drop_bit (Suc k) y)"
    using assms(1) by simp
  then have half: "?X div 2 = ?Y div 2"
    by (simp only: unat_drop_bit_div div_power_Suc)
  have "bit (unat x) k \<longleftrightarrow> bit x k" "bit (unat y) k \<longleftrightarrow> bit y k"
    by (simp_all add: bit_unsigned_iff)
  then have "even ?X" "odd ?Y"
    using assms(2,3) by (simp_all add: bit_iff_odd)
  with half have "?X < ?Y" by (intro even_odd_half_less)
  then have "unat x < unat y" by (rule div_less_imp_less)
  then show ?thesis by (simp add: word_less_nat_alt)
qed

lemma agree_above_all: "agree_above (int LENGTH('a) - 1) xs" for xs :: "'a::len word list"
  by (simp add: agree_above_def)

lemma agree_above_none:
  assumes "agree_above b xs" "b < 0"
  shows "sorted xs"
proof -
  have "nat (b + 1) = 0" using assms(2) by simp
  then have "\<forall>x\<in>set xs. \<forall>y\<in>set xs. x = y"
    using assms(1) unfolding agree_above_def by simp
  then have "\<forall>x\<in>set xs. \<forall>y\<in>set xs. x \<le> y" by auto
  then show ?thesis by (induction xs) auto
qed

lemma agree_above_mset:
  assumes "agree_above b xs" "mset ys = mset xs"
  shows "agree_above b ys"
proof -
  have "set ys = set xs" using assms(2) by (rule mset_eq_setD)
  with assms(1) show ?thesis unfolding agree_above_def by blast
qed

lemma agree_above_next:
  assumes "agree_above b xs" "0 \<le> b" "set ys \<subseteq> set xs"
    "(\<forall>x\<in>set ys. bit x (nat b)) \<or> (\<forall>x\<in>set ys. \<not> bit x (nat b))"
  shows "agree_above (b - 1) ys"
  unfolding agree_above_def
proof (intro ballI)
  fix x y assume xy: "x \<in> set ys" "y \<in> set ys"
  have "drop_bit (nat (b + 1)) x = drop_bit (nat (b + 1)) y"
    using assms(1,3) xy unfolding agree_above_def by blast
  moreover have "nat (b + 1) = Suc (nat b)" using assms(2) by simp
  ultimately have "drop_bit (Suc (nat b)) x = drop_bit (Suc (nat b)) y"
    by (simp only:)
  moreover have "bit x (nat b) \<longleftrightarrow> bit y (nat b)" using assms(4) xy by auto
  ultimately have "drop_bit (nat b) x = drop_bit (nat b) y" by (rule drop_bit_step)
  then show "drop_bit (nat (b - 1 + 1)) x = drop_bit (nat (b - 1 + 1)) y" by simp
qed

lemma agree_above_le:
  assumes "agree_above b xs" "0 \<le> b" "x \<in> set xs" "y \<in> set xs"
    "\<not> bit x (nat b)" "bit y (nat b)"
  shows "x \<le> y"
proof -
  have "drop_bit (nat (b + 1)) x = drop_bit (nat (b + 1)) y"
    using assms(1,3,4) unfolding agree_above_def by blast
  moreover have "nat (b + 1) = Suc (nat b)" using assms(2) by simp
  ultimately have "drop_bit (Suc (nat b)) x = drop_bit (Suc (nat b)) y"
    by (simp only:)
  then have "x < y" using assms(5,6) by (rule word_bit_less)
  then show ?thesis by simp
qed

text \<open>
  Sorting the two parts of a partitioned range sorts the range (the argument of the
  recursive variant, stated for any later vector).
\<close>

lemma sorted_parts:
  assumes mn: "m \<le> n" and b: "0 \<le> b"
    and agree: "agree_above b (slice off n v1)"
    and zeros: "\<forall>x\<in>set (slice off m v1). \<not> bit x (nat b)"
    and ones: "\<forall>x\<in>set (slice (off + m) (n - m) v1). bit x (nat b)"
    and lo: "mset (slice off m v3) = mset (slice off m v1)"
      "agree_above (b - 1) (slice off m v1) \<Longrightarrow> sorted (slice off m v3)"
    and hi: "mset (slice (off + m) (n - m) v3) = mset (slice (off + m) (n - m) v1)"
      "agree_above (b - 1) (slice (off + m) (n - m) v1) \<Longrightarrow> sorted (slice (off + m) (n - m) v3)"
  shows "sorted (slice off n v3)"
proof -
  let ?S1 = "slice off n v1" and ?L1 = "slice off m v1" and ?R1 = "slice (off + m) (n - m) v1"
  let ?L3 = "slice off m v3" and ?R3 = "slice (off + m) (n - m) v3"
  have S1: "?S1 = ?L1 @ ?R1" using mn by (rule slice_split)
  have "agree_above (b - 1) ?L1"
    using agree b zeros by (intro agree_above_next [of b ?S1]) (simp_all add: S1)
  then have sL: "sorted ?L3" by (rule lo(2))
  have "agree_above (b - 1) ?R1"
    using agree b ones by (intro agree_above_next [of b ?S1]) (simp_all add: S1)
  then have sR: "sorted ?R3" by (rule hi(2))
  have "x \<le> y" if "x \<in> set ?L3" "y \<in> set ?R3" for x y
  proof -
    have x: "x \<in> set ?L1" using that(1) mset_eq_setD [OF lo(1)] by simp
    have y: "y \<in> set ?R1" using that(2) mset_eq_setD [OF hi(1)] by simp
    from x y have "x \<in> set ?S1" "y \<in> set ?S1" by (simp_all add: S1)
    moreover have "\<not> bit x (nat b)" "bit y (nat b)" using x y zeros ones by auto
    ultimately show ?thesis using agree b by (intro agree_above_le [of b ?S1])
  qed
  then have "sorted (?L3 @ ?R3)" using sL sR by (simp add: sorted_append)
  moreover have "slice off n v3 = ?L3 @ ?R3" using mn by (rule slice_split)
  ultimately show ?thesis by simp
qed

section \<open>The recursive variant\<close>

lemma subspan_Inr:
  assumes "m \<le> n"
  shows "subspan \<lparr>span_data = off, span_size = n\<rparr> 0 (int m) = Inr \<lparr>span_data = off, span_size = m\<rparr>"
  using assms by (simp add: subspan_def)

lemma subspan_from_Inr:
  assumes "m \<le> n"
  shows "subspan_from \<lparr>span_data = off, span_size = n\<rparr> (int m)
         = Inr \<lparr>span_data = off + m, span_size = n - m\<rparr>"
  using assms by (simp add: subspan_from_def)

text \<open>
  What a call of \<open>bin_radix_sort_rec_inm\<close> on a span of fewer than \<open>2^31\<close> elements inside
  the vector does: it returns, it permutes the vector, it leaves the elements outside the
  span alone, and it sorts the span when the elements of the span have the same bits
  above \<open>b\<close>.
\<close>

lemma rec_inm_spec:
  assumes "off + n \<le> length v" "n < 2 ^ 31"
  shows "\<exists>v'. bin_radix_sort_rec_inm v \<lparr>span_data = off, span_size = n\<rparr> b = Inr v'
           \<and> same_outside off n v v' \<and> mset v' = mset v
           \<and> (agree_above b (slice off n v) \<longrightarrow> sorted (slice off n v'))"
  using assms
proof (induction "nat (b + 1)" arbitrary: b v off n)
  case 0
  then have "b < 0" by simp
  then have "bin_radix_sort_rec_inm v \<lparr>span_data = off, span_size = n\<rparr> b = Inr v"
    by (simp add: bin_radix_sort_rec_inm.simps [of v _ b])
  then show ?case
    using \<open>b < 0\<close> by (auto simp: same_outside_refl intro: agree_above_none)
next
  case (Suc k)
  then have b: "0 \<le> b" and k: "k = nat (b - 1 + 1)" by simp_all
  let ?vview = "\<lparr>span_data = off, span_size = n\<rparr>"
  show ?case
  proof (cases "n \<le> 1")
    case True
    then have "bin_radix_sort_rec_inm v ?vview b = Inr v"
      by (simp add: bin_radix_sort_rec_inm.simps [of v ?vview b])
    moreover have "sorted (slice off n v)"
      using True by (intro sorted01) (simp add: slice_def)
    ultimately show ?thesis by (simp add: same_outside_refl)
  next
    case False
    then have n1: "1 \<le> n" by simp
    obtain v1 m where
      "it_partition v b (int off) (int off + int n - 1) = Inr (v1, int off + int m)" and
      part: "rec_partition v ?vview b 0 (int_of_size (n - 1)) = Inr (v1, int m)" and
      mn: "m \<le> n" and so1: "same_outside off n v v1" and ms1: "mset v1 = mset v" and
      zeros: "\<forall>x\<in>set (slice off m v1). \<not> bit x (nat b)" and
      ones: "\<forall>x\<in>set (slice (off + m) (n - m) v1). bit x (nat b)"
      by (rule rec_partition_range [OF Suc.prems(1) n1 Suc.prems(2), of b])
    have len1: "length v1 = length v" using so1 by (rule same_outside_length)
    have lo_in: "off + m \<le> length v1" using mn Suc.prems(1) len1 by simp
    have m_lt: "m < 2 ^ 31" "n - m < 2 ^ 31" using mn Suc.prems(2) by simp_all
    from Suc.hyps(1) [OF k lo_in m_lt(1)] obtain v2 where
      rec_lo: "bin_radix_sort_rec_inm v1 \<lparr>span_data = off, span_size = m\<rparr> (b - 1) = Inr v2" and
      so2: "same_outside off m v1 v2" and ms2: "mset v2 = mset v1" and
      sorted_lo: "agree_above (b - 1) (slice off m v1) \<Longrightarrow> sorted (slice off m v2)"
      by blast
    have len2: "length v2 = length v1" using so2 by (rule same_outside_length)
    have hi_in: "off + m + (n - m) \<le> length v2" using mn Suc.prems(1) len1 len2 by simp
    from Suc.hyps(1) [OF k hi_in m_lt(2)] obtain v3 where
      rec_hi: "bin_radix_sort_rec_inm v2 \<lparr>span_data = off + m, span_size = n - m\<rparr> (b - 1) = Inr v3" and
      so3: "same_outside (off + m) (n - m) v2 v3" and ms3: "mset v3 = mset v2" and
      sorted_hi: "agree_above (b - 1) (slice (off + m) (n - m) v2)
                  \<Longrightarrow> sorted (slice (off + m) (n - m) v3)"
      by blast
    have run: "bin_radix_sort_rec_inm v ?vview b = Inr v3"
      using False b part subspan_Inr [OF mn, of off] subspan_from_Inr [OF mn, of off] rec_lo rec_hi
      by (simp add: bin_radix_sort_rec_inm.simps [of v ?vview b])
    have so: "same_outside off n v v3"
    proof -
      have "same_outside off n v1 v2" using mn by (intro same_outside_mono [OF so2]) simp_all
      moreover have "same_outside off n v2 v3" using mn by (intro same_outside_mono [OF so3]) simp_all
      ultimately show ?thesis using so1 by (blast intro: same_outside_trans)
    qed
    have ms: "mset v3 = mset v" using ms1 ms2 ms3 by simp
    have srt: "sorted (slice off n v3)" if agree: "agree_above b (slice off n v)"
    proof -
      let ?S1 = "slice off n v1" and ?L1 = "slice off m v1" and ?R1 = "slice (off + m) (n - m) v1"
      let ?L3 = "slice off m v3" and ?R3 = "slice (off + m) (n - m) v3"
      have "mset ?S1 = mset (slice off n v)"
        using same_outside_mset [OF so1 Suc.prems(1)] ms1 by simp
      with agree have agree1: "agree_above b ?S1" by (rule agree_above_mset)
      have S1: "?S1 = ?L1 @ ?R1" using mn by (rule slice_split)
      have "agree_above (b - 1) ?L1"
        using agree1 b zeros by (intro agree_above_next [of b ?S1]) (simp_all add: S1)
      then have sL2: "sorted (slice off m v2)" by (rule sorted_lo)
      have msL2: "mset (slice off m v2) = mset ?L1"
        using same_outside_mset [OF so2 lo_in] ms2 by simp
      have R2: "slice (off + m) (n - m) v2 = ?R1"
        using so2 hi_in len2 by (intro same_outside_slice [OF so2]) simp_all
      have "agree_above (b - 1) ?R1"
        using agree1 b ones by (intro agree_above_next [of b ?S1]) (simp_all add: S1)
      then have sR3: "sorted ?R3" using sorted_hi R2 by simp
      have msR3: "mset ?R3 = mset ?R1"
        using same_outside_mset [OF so3 hi_in] ms3 R2 by simp
      have L3: "?L3 = slice off m v2"
        using so3 lo_in len2 by (intro same_outside_slice [OF so3]) simp_all
      have "x \<le> y" if "x \<in> set ?L3" "y \<in> set ?R3" for x y
      proof -
        have x: "x \<in> set ?L1" using that(1) L3 mset_eq_setD [OF msL2] by simp
        have y: "y \<in> set ?R1" using that(2) mset_eq_setD [OF msR3] by simp
        from x y have "x \<in> set ?S1" "y \<in> set ?S1" by (simp_all add: S1)
        moreover have "\<not> bit x (nat b)" "bit y (nat b)" using x y zeros ones by auto
        ultimately show ?thesis using agree1 b by (intro agree_above_le [of b ?S1])
      qed
      then have "sorted (?L3 @ ?R3)"
        using sL2 sR3 L3 by (simp add: sorted_append)
      moreover have "slice off n v3 = ?L3 @ ?R3" using mn by (rule slice_split)
      ultimately show ?thesis by simp
    qed
    show ?thesis using run so ms srt by blast
  qed
qed

text \<open>
  On a vector of fewer than \<open>2^31\<close> elements the recursive variant returns a permutation
  of its input, in ascending order.
\<close>

lemma bin_radix_sort_rec_sort:
  assumes "length v < 2 ^ 31"
  shows "bin_radix_sort_rec v = Inr (sort v)"
proof -
  have "0 + length v \<le> length v" by simp
  from rec_inm_spec [OF this assms, of "int LENGTH('a) - 1"] obtain v' where
    run: "bin_radix_sort_rec_inm v \<lparr>span_data = 0, span_size = length v\<rparr> (int LENGTH('a) - 1)
          = Inr v'" and
    so: "same_outside 0 (length v) v v'" and ms: "mset v' = mset v" and
    srt: "agree_above (int LENGTH('a) - 1) (slice 0 (length v) v)
          \<Longrightarrow> sorted (slice 0 (length v) v')"
    by blast
  have "length v' = length v" using so by (rule same_outside_length)
  then have "slice 0 (length v) v' = v'" using slice_whole [of v'] by simp
  moreover have "agree_above (int LENGTH('a) - 1) (slice 0 (length v) v)"
    by (rule agree_above_all)
  ultimately have "sorted v'" using srt by simp
  with ms have "sort v = v'" by (rule properties_for_sort)
  then show ?thesis using run by (simp add: bin_radix_sort_rec_def)
qed

lemma bin_radix_sort_rec_ascending:
  assumes "length v < 2 ^ 31"
  shows "\<exists>v'. bin_radix_sort_rec v = Inr v' \<and> sorted v'
           \<and> (\<forall>i. Suc i < length v' \<longrightarrow> unat (v' ! i) \<le> unat (v' ! Suc i))"
proof -
  have "sorted (sort v)" by simp
  then have "\<forall>i. Suc i < length (sort v) \<longrightarrow> unat (sort v ! i) \<le> unat (sort v ! Suc i)"
    by (simp only: sorted_iff_nth_Suc word_le_nat_alt)
  then show ?thesis using bin_radix_sort_rec_sort [OF assms] by simp
qed

lemma bin_radix_sort_rec_mset:
  assumes "length v < 2 ^ 31"
  shows "\<exists>v'. bin_radix_sort_rec v = Inr v' \<and> mset v' = mset v"
  using assms by (simp add: bin_radix_sort_rec_sort)



text \<open>
  Each recursive call is at the bit below its caller's, and only a call at a bit \<open>\<ge> 0\<close>
  calls: below the first call, at bit \<open>W - 1\<close>, calls nest at most \<open>W\<close> deep.
\<close>

lemma rec_call_bit:
  assumes "rec_call c c'"
  shows "snd (snd c') = snd (snd c) - 1 \<and> 0 \<le> snd (snd c)"
  using assms by (induction rule: rec_call.induct) auto

lemma rec_call_chain:
  assumes "(rec_call ^^ k) c c'"
  shows "snd (snd c') = snd (snd c) - int k \<and> (0 < k \<longrightarrow> int k \<le> snd (snd c) + 1)"
  using assms
proof (induction k arbitrary: c')
  case 0
  then show ?case by simp
next
  case (Suc k)
  then obtain c1 where "(rec_call ^^ k) c c1" "rec_call c1 c'" by auto
  then show ?case using Suc.IH [of c1] rec_call_bit [of c1 c'] by auto
qed

lemma rec_depth:
  fixes v :: "'a::len word list"
  assumes "(rec_call ^^ k) (v, \<lparr>span_data = 0, span_size = length v\<rparr>, int LENGTH('a) - 1) c'"
  shows "k \<le> LENGTH('a)"
  using rec_call_chain [OF assms] by (cases "0 < k") simp_all

section \<open>The iterative variant\<close>

lemma stack_at_live:
  assumes "stack_at (stack s) (top_i s) = Inr t"
  shows "live s = take (nat (top_i s)) (stack s) @ [t]"
  using assms live_pop [of s] by (simp add: stack_at_Inr)

lemma it_start_cases:
  "it_start v = Inl (StackIndex 0) \<and> v = []
   \<or> it_start v = Inr \<lparr>vec = v,
          stack = (replicate (length v) (0, 0, 0))
                    [0 := (0, int_of_size (length v), int LENGTH('a) - 1)],
          top_i = 0\<rparr> \<and> v \<noteq> []"
  for v :: "'a::len word list"
  by (cases v) (simp_all add: it_start_def stack_set_def)

lemma it_start_live:
  fixes v :: "'a::len word list"
  assumes "it_start v = Inr s0"
  shows "vec s0 = v" "live s0 = [(0, int_of_size (length v), int LENGTH('a) - 1)]"
    "top_i s0 = 0" "length (stack s0) = length v"
proof -
  from assms it_start_cases [of v] have
    s0: "s0 = \<lparr>vec = v,
          stack = (replicate (length v) (0, 0, 0))
                    [0 := (0, int_of_size (length v), int LENGTH('a) - 1)],
          top_i = 0\<rparr>" and ne: "v \<noteq> []"
    by auto
  show "vec s0 = v" "top_i s0 = 0" "length (stack s0) = length v" by (simp_all add: s0)
  have "0 < length v" using ne by simp
  then show "live s0 = [(0, int_of_size (length v), int LENGTH('a) - 1)]"
    by (simp add: s0 live_def take_Suc_conv_app_nth)
qed

text \<open>On a vector of fewer than \<open>2^31\<close> elements the first task is the whole vector.\<close>

lemma it_start_bounds:
  assumes "it_start v = Inr s0" "length v < 2 ^ 31"
  shows "it_bounds (length v) s0"
  using it_start_live [OF assms(1)] int_of_size_id [OF assms(2)]
  by (simp add: it_bounds_def task_in_bounds_def)

text \<open>What one pass does to the live part of the work-list and to the vector.\<close>

lemma it_pass_cases:
  assumes "it_pass s s'"
  obtains
    (discard) start size_i b ts where
      "live s = ts @ [(start, size_i, b)]" "size_i \<le> 1 \<or> b < 0"
      "live s' = ts" "vec s' = vec s" "top_i s' = top_i s - 1" "stack s' = stack s"
  | (split) start size_i b ts left where
      "live s = ts @ [(start, size_i, b)]" "1 < size_i" "0 \<le> b"
      "it_partition (vec s) b start (start + size_i - 1) = Inr (vec s', left)"
      "live s' = ts @ [(start, left - start, b - 1), (left, size_i - (left - start), b - 1)]"
      "top_i s' = top_i s + 1" "top_i s + 1 < int (length (stack s))"
      "length (stack s') = length (stack s)"
proof -
  from assms have top: "0 \<le> top_i s" and step: "it_step s = Inr s'"
    by (simp_all add: it_pass_def)
  from step show thesis
  proof (cases rule: it_step_cases)
    case c: (discard start size_i b)
    have "live s = take (nat (top_i s)) (stack s) @ [(start, size_i, b)]"
      using c(1) by (rule stack_at_live)
    moreover have "live s' = take (nat (top_i s)) (stack s)"
      unfolding c(3) using top by (rule live_discard)
    ultimately show thesis using c(2,3) by (intro discard) simp_all
  next
    case c: (split start size_i b v' left st1 st2)
    have l: "live s = take (nat (top_i s)) (stack s) @ [(start, size_i, b)]"
      using c(1) by (rule stack_at_live)
    from c(5,6) have inb2: "top_i s + 1 < int (length (stack s))"
      and st2: "st2 = (stack s)[nat (top_i s) := (start, left - start, b - 1),
                   nat (top_i s + 1) := (left, size_i - (left - start), b - 1)]"
      by (auto simp: stack_set_Inr)
    have "live s' = take (nat (top_i s)) (stack s)
            @ [(start, left - start, b - 1), (left, size_i - (left - start), b - 1)]"
      unfolding c(7) st2 using top inb2 by (rule live_push2)
    then show thesis using l c(2,3,4,7) inb2 st2 by (intro split) simp_all
  qed
qed

text \<open>The tasks of the work-list stay inside the vector.\<close>

lemma it_pass_bounds:
  assumes "it_pass s s'" "it_bounds n s"
  shows "it_bounds n s'"
  using assms(1)
proof (cases rule: it_pass_cases)
  case discard
  then show ?thesis using assms(2) by (simp add: it_bounds_def)
next
  case (split start size_i b ts left)
  have t: "0 \<le> start" "0 \<le> size_i" "start + size_i \<le> int n" and len: "length (vec s) = n"
    and ts: "\<forall>t\<in>set ts. task_in_bounds n t"
    using assms(2) split(1) by (simp_all add: it_bounds_def task_in_bounds_def)
  have "start + size_i - 1 < int (length (vec s))" using t len by simp
  from it_partition_spec [OF t(1) this, of b] split(4)
  have "length (vec s') = length (vec s)" "start \<le> left" "left \<le> start + size_i"
    using split(2) by auto
  then show ?thesis
    using t len ts split(5) by (simp add: it_bounds_def task_in_bounds_def)
qed



lemma tasks_disjoint_append:
  "tasks_disjoint (xs @ ys) \<longleftrightarrow>
     tasks_disjoint xs \<and> tasks_disjoint ys
     \<and> (\<forall>x\<in>set xs. \<forall>y\<in>set ys. task_range x \<inter> task_range y = {})"
  by (induction xs) auto

text \<open>
  The loop from a state whose tasks lie in the vector and do not overlap: if it returns,
  the vector is permuted, unchanged outside the ranges of the tasks, and every task is
  done.
\<close>

lemma it_loop_spec:
  assumes "bin_radix_sort_it_loop s = Inr s'" "it_bounds n s" "tasks_disjoint (live s)"
  shows "length (vec s') = n
         \<and> (\<forall>i<n. (\<forall>t\<in>set (live s). i \<notin> task_range t) \<longrightarrow> vec s' ! i = vec s ! i)
         \<and> (\<forall>t\<in>set (live s). task_done t (vec s) (vec s'))"
  using assms
proof (induction s rule: bin_radix_sort_it_loop.induct)
  case (1 s)
  show ?case
  proof (cases "0 \<le> top_i s")
    case False
    then have "s' = s" "live s = []"
      using "1.prems"(1) by (simp_all add: bin_radix_sort_it_loop.simps [of s] live_def)
    then show ?thesis using "1.prems"(2) by (simp add: it_bounds_def)
  next
    case True
    then obtain s1 where step: "it_step s = Inr s1" and rest: "bin_radix_sort_it_loop s1 = Inr s'"
      using "1.prems"(1)
      by (cases "it_step s") (simp_all add: bin_radix_sort_it_loop.simps [of s])
    have pass: "it_pass s s1" using True step by (simp add: it_pass_def)
    have b1: "it_bounds n s1" using pass "1.prems"(2) by (rule it_pass_bounds)
    have len: "length (vec s) = n" using "1.prems"(2) by (simp add: it_bounds_def)
    from pass show ?thesis
    proof (cases rule: it_pass_cases)
      case (discard start size_i b ts)
      have d1: "tasks_disjoint (live s1)"
        using "1.prems"(3) discard(1,3) by (simp add: tasks_disjoint_append)
      from "1.IH" [OF True step rest b1 d1] have
        len': "length (vec s') = n" and
        frame: "\<And>i. i < n \<Longrightarrow> \<forall>t\<in>set ts. i \<notin> task_range t \<Longrightarrow> vec s' ! i = vec s ! i" and
        dn: "\<forall>t\<in>set ts. task_done t (vec s) (vec s')"
        using discard(3,4) by auto
      have t: "0 \<le> start" "0 \<le> size_i" "start + size_i \<le> int n"
        using "1.prems"(2) discard(1) by (simp_all add: it_bounds_def task_in_bounds_def)
      have apart: "\<forall>u\<in>set ts. task_range u \<inter> task_range (start, size_i, b) = {}"
        using "1.prems"(3) discard(1) by (simp add: tasks_disjoint_append)
      have "slice (nat start) (nat size_i) (vec s') = slice (nat start) (nat size_i) (vec s)"
      proof (rule slice_eqI)
        show "length (vec s') = length (vec s)" using len len' by simp
        show "nat start + nat size_i \<le> length (vec s)" using t len by linarith
        fix i assume i: "nat start \<le> i" "i < nat start + nat size_i"
        then have "i \<in> task_range (start, size_i, b)"
          using t by (simp add: task_range_def nat_add_distrib)
        then have "\<forall>u\<in>set ts. i \<notin> task_range u" using apart by blast
        moreover have "i < n" using i t by linarith
        ultimately show "vec s' ! i = vec s ! i" by (intro frame)
      qed
      moreover have "sorted (slice (nat start) (nat size_i) (vec s))"
        if "agree_above b (slice (nat start) (nat size_i) (vec s))"
      proof (cases "b < 0")
        case True
        with that show ?thesis by (rule agree_above_none)
      next
        case False
        then have "size_i \<le> 1" using discard(2) by simp
        then show ?thesis by (intro sorted01) (simp add: slice_def)
      qed
      ultimately have "task_done (start, size_i, b) (vec s) (vec s')"
        by (simp add: task_done_def)
      then show ?thesis using len' frame dn discard(1) by auto
    next
      case (split start size_i b ts left)
      have t: "0 \<le> start" "0 \<le> size_i" "start + size_i \<le> int n"
        using "1.prems"(2) split(1) by (simp_all add: it_bounds_def task_in_bounds_def)
      let ?off = "nat start" and ?n = "nat size_i"
      have inb: "?off + ?n \<le> length (vec s)" using t len by linarith
      obtain v1 m where
        it: "it_partition (vec s) b (int ?off) (int ?off + int ?n - 1) = Inr (v1, int ?off + int m)" and
        mn: "m \<le> ?n" and so: "same_outside ?off ?n (vec s) v1" and ms: "mset v1 = mset (vec s)" and
        zeros: "\<forall>x\<in>set (slice ?off m v1). \<not> bit x (nat b)" and
        ones: "\<forall>x\<in>set (slice (?off + m) (?n - m) v1). bit x (nat b)"
        by (rule partition_range [OF inb, of b])
      have "int ?off = start" "int ?off + int ?n - 1 = start + size_i - 1" using t by simp_all
      with it split(4) have v1: "vec s1 = v1" and left: "left = start + int m" by simp_all
      let ?t1 = "(start, int m, b - 1)" and ?t2 = "(start + int m, size_i - int m, b - 1)"
      have live1: "live s1 = ts @ [?t1, ?t2]" using split(5) left by simp
      have r1: "task_range ?t1 = {?off ..< ?off + m}"
        using t by (simp add: task_range_def nat_add_distrib)
      have r2: "task_range ?t2 = {?off + m ..< ?off + ?n}"
        using t mn by (simp add: task_range_def nat_add_distrib)
      have r: "task_range (start, size_i, b) = {?off ..< ?off + ?n}"
        using t by (simp add: task_range_def nat_add_distrib)
      have apart: "\<forall>u\<in>set ts. task_range u \<inter> {?off ..< ?off + ?n} = {}"
        and dts: "tasks_disjoint ts"
        using "1.prems"(3) split(1) r by (simp_all add: tasks_disjoint_append)
      have "{?off ..< ?off + m} \<subseteq> {?off ..< ?off + ?n}"
        "{?off + m ..< ?off + ?n} \<subseteq> {?off ..< ?off + ?n}"
        using mn by auto
      with apart have apart1: "\<forall>u\<in>set ts. task_range u \<inter> {?off ..< ?off + m} = {}"
        and apart2: "\<forall>u\<in>set ts. task_range u \<inter> {?off + m ..< ?off + ?n} = {}"
        by blast+
      have "{?off ..< ?off + m} \<inter> {?off + m ..< ?off + ?n} = {}" by auto
      then have d1: "tasks_disjoint (live s1)"
        unfolding live1 tasks_disjoint_append
        using dts apart1 apart2 by (simp add: r1 r2)
      from "1.IH" [OF True step rest b1 d1] have
        len': "length (vec s') = n" and
        frame: "\<And>i. i < n \<Longrightarrow> \<forall>t\<in>set (ts @ [?t1, ?t2]). i \<notin> task_range t
                  \<Longrightarrow> vec s' ! i = v1 ! i" and
        dn: "\<forall>t\<in>set (ts @ [?t1, ?t2]). task_done t v1 (vec s')"
        unfolding live1 v1 by auto
      have len1: "length v1 = length (vec s)" using so by (rule same_outside_length)
      have frame_s: "vec s' ! i = vec s ! i"
        if "i < n" "\<forall>u\<in>set (ts @ [(start, size_i, b)]). i \<notin> task_range u" for i
      proof -
        have out: "i < ?off \<or> ?off + ?n \<le> i" using that(2) r by auto
        then have "\<forall>u\<in>set (ts @ [?t1, ?t2]). i \<notin> task_range u"
          using that(2) mn by (auto simp: r1 r2)
        then have "vec s' ! i = v1 ! i" using that(1) by (intro frame)
        also have "v1 ! i = vec s ! i"
          using so out that(1) len by (auto simp: same_outside_def)
        finally show ?thesis .
      qed
      have done_ts: "task_done u (vec s) (vec s')" if u: "u \<in> set ts" for u
      proof -
        obtain a k c where uu: "u = (a, k, c)" by (cases u) auto
        have ub: "0 \<le> a" "0 \<le> k" "a + k \<le> int n"
          using "1.prems"(2) split(1) u uu by (auto simp: it_bounds_def task_in_bounds_def)
        have ur: "task_range u = {nat a ..< nat a + nat k}"
          using ub by (simp add: uu task_range_def nat_add_distrib)
        have "slice (nat a) (nat k) v1 = slice (nat a) (nat k) (vec s)"
        proof (rule slice_eqI)
          show "length v1 = length (vec s)" by (rule len1)
          show "nat a + nat k \<le> length (vec s)" using ub len by linarith
          fix i assume i: "nat a \<le> i" "i < nat a + nat k"
          then have "i \<in> task_range u" by (simp add: ur)
          then have "i \<notin> {?off ..< ?off + ?n}" using apart u by blast
          moreover have "i < length (vec s)" using i ub len by linarith
          ultimately show "v1 ! i = vec s ! i" using so by (auto simp: same_outside_def)
        qed
        moreover have "task_done u v1 (vec s')" using dn u by simp
        ultimately show ?thesis by (simp add: task_done_def uu)
      qed
      have d1': "task_done ?t1 v1 (vec s')" and d2': "task_done ?t2 v1 (vec s')"
        using dn by simp_all
      have n2: "nat (size_i - int m) = ?n - m" "nat (start + int m) = ?off + m"
        using t mn by (simp_all add: nat_add_distrib nat_diff_distrib)
      have lo: "mset (slice ?off m (vec s')) = mset (slice ?off m v1)"
        "agree_above (b - 1) (slice ?off m v1) \<Longrightarrow> sorted (slice ?off m (vec s'))"
        using d1' by (simp_all add: task_done_def)
      have hi: "mset (slice (?off + m) (?n - m) (vec s')) = mset (slice (?off + m) (?n - m) v1)"
        "agree_above (b - 1) (slice (?off + m) (?n - m) v1)
         \<Longrightarrow> sorted (slice (?off + m) (?n - m) (vec s'))"
        using d2' by (simp_all add: task_done_def n2)
      have ms1: "mset (slice ?off ?n v1) = mset (slice ?off ?n (vec s))"
        using same_outside_mset [OF so inb] ms by simp
      have "mset (slice ?off ?n (vec s')) = mset (slice ?off ?n (vec s))"
        using lo(1) hi(1) ms1 slice_split [OF mn, of ?off v1] slice_split [OF mn, of ?off "vec s'"]
        by simp
      moreover have "sorted (slice ?off ?n (vec s'))"
        if "agree_above b (slice ?off ?n (vec s))"
      proof -
        have "agree_above b (slice ?off ?n v1)" using that ms1 by (rule agree_above_mset)
        with mn split(3) show ?thesis using zeros ones lo hi by (rule sorted_parts)
      qed
      ultimately have "task_done (start, size_i, b) (vec s) (vec s')"
        by (simp add: task_done_def)
      then show ?thesis using len' frame_s done_ts split(1) by auto
    qed
  qed
qed

text \<open>
  When \<open>bin_radix_sort_it\<close> returns on a vector of fewer than \<open>2^31\<close> elements, it
  returns what the recursive variant and the reference sort return.
\<close>

lemma bin_radix_sort_it_sort:
  assumes "bin_radix_sort_it v = Inr v'" "length v < 2 ^ 31"
  shows "v' = sort v"
proof -
  from assms(1) obtain s0 s' where
    start: "it_start v = Inr s0" and run: "bin_radix_sort_it_loop s0 = Inr s'" and
    v': "v' = vec s'"
    by (auto simp: bin_radix_sort_it_def split: sum.splits)
  let ?t = "(0, int (length v), int LENGTH('a) - 1)"
  have l0: "live s0 = [?t]" and v0: "vec s0 = v"
    using it_start_live [OF start] int_of_size_id [OF assms(2)] by simp_all
  have "it_bounds (length v) s0" using start assms(2) by (rule it_start_bounds)
  moreover have "tasks_disjoint (live s0)" by (simp add: l0)
  ultimately have "length (vec s') = length v" "task_done ?t v (vec s')"
    using it_loop_spec [OF run, of "length v"] l0 v0 by simp_all
  then have "mset (vec s') = mset v" "sorted (vec s')"
    using agree_above_all [of v] slice_whole [of v] slice_whole [of "vec s'"]
    by (simp_all add: task_done_def)
  then have "sort v = vec s'" by (rule properties_for_sort)
  then show ?thesis by (simp add: v')
qed

text \<open>
  How deep the work-list gets. A pass that pushes does so for a task at a bit \<open>\<ge> 0\<close>,
  so by \<open>it_depth\<close> it writes no index above \<open>W\<close>: an array of more than \<open>W\<close> entries is
  never overrun. An array of \<open>W\<close> entries or fewer can be: a pass that partitions a range
  whose elements all have the bit set leaves an empty task below the task it goes on
  with, whatever the length of the vector.
\<close>

lemma length_live:
  assumes "top_i s < int (length (stack s))"
  shows "length (live s) = nat (top_i s + 1)"
  using assms by (simp add: live_def)

lemma it_pass_depth:
  assumes "it_pass s s'" "it_depth w s"
  shows "it_depth w s'"
  using assms(1)
proof (cases rule: it_pass_cases)
  case (discard start size_i b ts)
  show ?thesis
    unfolding it_depth_def discard(3)
  proof (intro allI impI)
    fix i assume "i < length ts"
    then have "i < length (live s)" "live s ! i = ts ! i"
      by (simp_all add: discard(1) nth_append)
    then show "snd (snd (ts ! i)) + int i \<le> int w - 1"
      using assms(2) by (auto simp: it_depth_def)
  qed
next
  case (split start size_i b ts left)
  have top: "b + int (length ts) \<le> int w - 1"
    using assms(2) split(1) by (auto simp: it_depth_def nth_append)
  show ?thesis
    unfolding it_depth_def split(5)
  proof (intro allI impI)
    fix i
    let ?l = "ts @ [(start, left - start, b - 1), (left, size_i - (left - start), b - 1)]"
    assume "i < length ?l"
    then consider "i < length ts" | "i = length ts" | "i = Suc (length ts)" by fastforce
    then show "snd (snd (?l ! i)) + int i \<le> int w - 1"
    proof cases
      case 1
      then have "i < length (live s)" "live s ! i = ts ! i"
        by (simp_all add: split(1) nth_append)
      then have "snd (snd (ts ! i)) + int i \<le> int w - 1"
        using assms(2) by (auto simp: it_depth_def)
      then show ?thesis using 1 by (simp add: nth_append)
    next
      case 2
      then show ?thesis using top by (simp add: nth_append)
    next
      case 3
      then show ?thesis using top by (simp add: nth_append)
    qed
  qed
qed

lemma it_pass_top:
  assumes "it_pass s s'" "top_i s < int (length (stack s))"
  shows "top_i s' < int (length (stack s'))" "length (stack s') = length (stack s)"
  using assms(1) by (cases rule: it_pass_cases; use assms(2) in simp)+

text \<open>A pass from a state whose tasks lie in the vector: it returns, or it overruns the array.\<close>

lemma it_step_total:
  assumes "0 \<le> top_i s" "top_i s < int (length (stack s))" "it_bounds n s"
  shows "(\<exists>s'. it_step s = Inr s')
         \<or> (it_step s = Inl (StackIndex (top_i s + 1))
            \<and> int (length (stack s)) \<le> top_i s + 1
            \<and> (\<exists>start size_i b. stack s ! nat (top_i s) = (start, size_i, b)
                  \<and> 1 < size_i \<and> 0 \<le> b))"
proof -
  obtain start size_i b where t: "stack s ! nat (top_i s) = (start, size_i, b)"
    by (cases "stack s ! nat (top_i s)") auto
  have pop: "stack_at (stack s) (top_i s) = Inr (start, size_i, b)"
    using assms(1,2) t by (simp add: stack_at_def)
  show ?thesis
  proof (cases "size_i \<le> 1 \<or> b < 0")
    case True
    then show ?thesis using pop by (simp add: it_step_def)
  next
    case False
    have "(start, size_i, b) \<in> set (live s)" using stack_at_live [OF pop] by simp
    then have tb: "0 \<le> start" "0 \<le> size_i" "start + size_i \<le> int n" and len: "length (vec s) = n"
      using assms(3) by (auto simp: it_bounds_def task_in_bounds_def)
    have "start + size_i - 1 < int (length (vec s))" using tb len by simp
    from it_partition_spec [OF tb(1) this, of b] obtain v' left where
      part: "it_partition (vec s) b start (start + size_i - 1) = Inr (v', left)"
      by blast
    have push1: "stack_set (stack s) (top_i s - 1 + 1) (start, left - start, b - 1)
                 = Inr ((stack s)[nat (top_i s) := (start, left - start, b - 1)])"
      using assms(1,2) by (simp add: stack_set_def)
    show ?thesis
    proof (cases "top_i s + 1 < int (length (stack s))")
      case True
      then have "stack_set ((stack s)[nat (top_i s) := (start, left - start, b - 1)])
                   (top_i s - 1 + 2) (left, size_i - (left - start), b - 1)
                 = Inr ((stack s)[nat (top_i s) := (start, left - start, b - 1),
                          nat (top_i s + 1) := (left, size_i - (left - start), b - 1)])"
        using assms(1) by (simp add: stack_set_def add.commute)
      then show ?thesis
        using pop False part push1 by (simp add: it_step_def Let_def)
    next
      case over: False
      then have "stack_set ((stack s)[nat (top_i s) := (start, left - start, b - 1)])
                   (top_i s - 1 + 2) (left, size_i - (left - start), b - 1)
                 = Inl (StackIndex (top_i s + 1))"
        by (simp add: stack_set_def add.commute)
      then have "it_step s = Inl (StackIndex (top_i s + 1))"
        using pop False part push1 by (simp add: it_step_def Let_def)
      then show ?thesis using over t False by auto
    qed
  qed
qed

lemma it_loop_total:
  assumes "it_bounds n s" "it_depth w s" "top_i s < int (length (stack s))"
    "w < length (stack s)"
  shows "\<exists>s'. bin_radix_sort_it_loop s = Inr s'"
  using assms
proof (induction s rule: bin_radix_sort_it_loop.induct)
  case (1 s)
  show ?case
  proof (cases "0 \<le> top_i s")
    case False
    then show ?thesis by (simp add: bin_radix_sort_it_loop.simps [of s])
  next
    case True
    have "\<exists>s1. it_step s = Inr s1"
    proof (rule ccontr)
      assume "\<not> (\<exists>s1. it_step s = Inr s1)"
      with it_step_total [OF True "1.prems"(3,1)] obtain start size_i b where
        over: "int (length (stack s)) \<le> top_i s + 1" and
        t: "stack s ! nat (top_i s) = (start, size_i, b)" "0 \<le> b"
        by auto
      have "nat (top_i s) < length (live s)" "live s ! nat (top_i s) = stack s ! nat (top_i s)"
        using True "1.prems"(3) by (simp_all add: live_def)
      then have "b + top_i s \<le> int w - 1"
        using "1.prems"(2) t(1) True by (auto simp: it_depth_def)
      then show False using t(2) over "1.prems"(4) by simp
    qed
    then obtain s1 where step: "it_step s = Inr s1" by blast
    then have pass: "it_pass s s1" using True by (simp add: it_pass_def)
    have "it_bounds n s1" using pass "1.prems"(1) by (rule it_pass_bounds)
    moreover have "it_depth w s1" using pass "1.prems"(2) by (rule it_pass_depth)
    moreover have "top_i s1 < int (length (stack s1))" "w < length (stack s1)"
      using it_pass_top [OF pass "1.prems"(3)] "1.prems"(4) by simp_all
    ultimately have "\<exists>s'. bin_radix_sort_it_loop s1 = Inr s'"
      by (intro "1.IH" [OF True step])
    then show ?thesis using True step by (simp add: bin_radix_sort_it_loop.simps [of s])
  qed
qed

lemma it_loop_error:
  assumes "bin_radix_sort_it_loop s = Inl e" "it_bounds n s" "top_i s < int (length (stack s))"
  shows "\<exists>i. e = StackIndex i \<and> int (length (stack s)) \<le> i"
  using assms
proof (induction s rule: bin_radix_sort_it_loop.induct)
  case (1 s)
  have top: "0 \<le> top_i s"
    using "1.prems"(1) by (cases "0 \<le> top_i s") (simp_all add: bin_radix_sort_it_loop.simps [of s])
  show ?case
  proof (cases "it_step s")
    case (Inl e')
    then have "e = e'" using "1.prems"(1) top by (simp add: bin_radix_sort_it_loop.simps [of s])
    then show ?thesis using it_step_total [OF top "1.prems"(3,2)] Inl by auto
  next
    case (Inr s1)
    then have rest: "bin_radix_sort_it_loop s1 = Inl e"
      using "1.prems"(1) top by (simp add: bin_radix_sort_it_loop.simps [of s])
    have pass: "it_pass s s1" using top Inr by (simp add: it_pass_def)
    have "it_bounds n s1" using pass "1.prems"(2) by (rule it_pass_bounds)
    moreover have "top_i s1 < int (length (stack s1))"
      using pass "1.prems"(3) by (rule it_pass_top)
    ultimately have "\<exists>i. e = StackIndex i \<and> int (length (stack s1)) \<le> i"
      using "1.IH" [OF top Inr rest] by simp
    then show ?thesis using it_pass_top(2) [OF pass "1.prems"(3)] by simp
  qed
qed

text \<open>
  \<open>bin_radix_sort_it\<close> on a vector of more than \<open>W\<close> and fewer than \<open>2^31\<close> elements
  returns the sorted vector. On any vector of fewer than \<open>2^31\<close> elements it either
  returns the sorted vector or writes the work-list array at or above its length; it
  makes no other access out of bounds.
\<close>

lemma bin_radix_sort_it_long:
  fixes v :: "'a::len word list"
  assumes "LENGTH('a) < length v" "length v < 2 ^ 31"
  shows "bin_radix_sort_it v = Inr (sort v)"
proof -
  from assms(1) have ne: "v \<noteq> []" by (cases v) simp_all
  then obtain s0 where start: "it_start v = Inr s0" using it_start_cases [of v] by auto
  note s0 = it_start_live [OF start]
  have "it_bounds (length v) s0" using start assms(2) by (rule it_start_bounds)
  moreover have "it_depth LENGTH('a) s0" by (simp add: it_depth_def s0)
  moreover have "top_i s0 < int (length (stack s0))" "LENGTH('a) < length (stack s0)"
    using assms(1) ne by (simp_all add: s0)
  ultimately obtain s' where "bin_radix_sort_it_loop s0 = Inr s'"
    using it_loop_total by blast
  then have run: "bin_radix_sort_it v = Inr (vec s')"
    using start by (simp add: bin_radix_sort_it_def)
  then have "vec s' = sort v" using assms(2) by (rule bin_radix_sort_it_sort)
  with run show ?thesis by simp
qed

lemma bin_radix_sort_it_cases:
  fixes v :: "'a::len word list"
  assumes "length v < 2 ^ 31"
  shows "bin_radix_sort_it v = Inr (sort v)
         \<or> (\<exists>i. bin_radix_sort_it v = Inl (StackIndex i) \<and> int (length v) \<le> i
                \<and> length v \<le> LENGTH('a))"
proof (cases "bin_radix_sort_it v")
  case (Inr v')
  then have "v' = sort v" using assms by (rule bin_radix_sort_it_sort)
  with Inr show ?thesis by simp
next
  case (Inl e)
  have short: "length v \<le> LENGTH('a)"
    using bin_radix_sort_it_long [of v] assms Inl by (cases "LENGTH('a) < length v") auto
  show ?thesis
  proof (cases "it_start v")
    case l: (Inl e')
    then show ?thesis using it_start_cases [of v] Inl short by (auto simp: bin_radix_sort_it_def)
  next
    case r: (Inr s0)
    note s0 = it_start_live [OF r]
    have "bin_radix_sort_it_loop s0 = Inl e"
      using Inl r by (auto simp: bin_radix_sort_it_def split: sum.splits)
    moreover have "it_bounds (length v) s0" using r assms by (rule it_start_bounds)
    moreover have "top_i s0 < int (length (stack s0))"
      using it_start_cases [of v] r by (auto simp: s0)
    ultimately have "\<exists>i. e = StackIndex i \<and> int (length (stack s0)) \<le> i"
      by (rule it_loop_error)
    then show ?thesis using Inl short by (auto simp: s0)
  qed
qed

text \<open>The number of partition steps.\<close>

lemma task_cost_split:
  assumes "0 \<le> b" "2 \<le> n" "m \<le> n"
  shows "1 + (nat (b - 1 + 1) * (m - 1) + nat (b - 1 + 1) * (n - m - 1))
         \<le> nat (b + 1) * (n - 1)"
proof -
  define c where "c = nat b"
  have b1: "nat (b - 1 + 1) = c" "nat (b + 1) = Suc c" using assms(1) by (simp_all add: c_def)
  have "(m - 1) + (n - m - 1) \<le> n - 1" using assms(2,3) by linarith
  then have "c * ((m - 1) + (n - m - 1)) \<le> c * (n - 1)" by (rule mult_le_mono2)
  then have "1 + (c * (m - 1) + c * (n - m - 1)) \<le> 1 + c * (n - 1)"
    by (simp add: distrib_left)
  also have "\<dots> \<le> Suc c * (n - 1)" using assms(2) by simp
  finally show ?thesis by (simp only: b1)
qed

lemma it_partitions_cost:
  assumes "it_bounds n s"
  shows "it_partitions s \<le> it_cost s"
  using assms
proof (induction s rule: it_partitions.induct)
  case (1 s)
  show ?case
  proof (cases "0 \<le> top_i s")
    case False
    then show ?thesis by (simp add: it_partitions.simps [of s])
  next
    case True
    show ?thesis
    proof (cases "it_step s")
      case (Inl e)
      then show ?thesis using True by (simp add: it_partitions.simps [of s])
    next
      case (Inr s1)
      have pass: "it_pass s s1" using True Inr by (simp add: it_pass_def)
      have b1: "it_bounds n s1" using pass "1.prems" by (rule it_pass_bounds)
      have IH: "it_partitions s1 \<le> it_cost s1" using "1.IH" [OF True Inr b1] .
      have here: "it_partitions s = (if it_splits s then 1 else 0) + it_partitions s1"
        using True Inr by (simp add: it_partitions.simps [of s])
      from Inr show ?thesis
      proof (cases rule: it_step_cases)
        case c: (discard start size_i b)
        then have "\<not> it_splits s" by (auto simp: it_splits_def)
        moreover have "live s = live s1 @ [(start, size_i, b)]"
          using stack_at_live [OF c(1)] live_discard [OF True] c(3) by simp
        then have "it_cost s1 \<le> it_cost s" by (simp add: it_cost_def)
        ultimately show ?thesis using here IH by simp
      next
        case c: (split start size_i b v' left st1 st2)
        then have sp: "it_splits s" by (auto simp: it_splits_def)
        from pass obtain start' size' b' ts left' where
          l: "live s = ts @ [(start', size', b')]" and
          p: "it_partition (vec s) b' start' (start' + size' - 1) = Inr (vec s1, left')" and
          l1: "live s1 = ts @ [(start', left' - start', b' - 1),
                               (left', size' - (left' - start'), b' - 1)]" and
          big: "1 < size'" "0 \<le> b'"
          by (cases rule: it_pass_cases) (use c(1,2,3) stack_at_live [of s] in auto)
        have t: "0 \<le> start'" "0 \<le> size'" "start' + size' \<le> int n" and len: "length (vec s) = n"
          using "1.prems" l by (simp_all add: it_bounds_def task_in_bounds_def)
        have "start' + size' - 1 < int (length (vec s))" using t len by simp
        from it_partition_spec [OF t(1) this, of b'] p
        have lr: "start' \<le> left'" "left' \<le> start' + size'" using big by auto
        define m where "m = nat (left' - start')"
        have m: "m \<le> nat size'" "nat (left' - start') = m"
          "nat (size' - (left' - start')) = nat size' - m"
          using lr t by (simp_all add: m_def nat_diff_distrib)
        have "1 + (nat (b' - 1 + 1) * (m - 1) + nat (b' - 1 + 1) * (nat size' - m - 1))
              \<le> nat (b' + 1) * (nat size' - 1)"
          using big m(1) by (intro task_cost_split) simp_all
        then have "1 + it_cost s1 \<le> it_cost s"
          by (simp add: it_cost_def l l1 task_cost_def m)
        then show ?thesis using here IH sp by simp
      qed
    qed
  qed
qed

text \<open>
  From the start on a vector of \<open>N < 2^31\<close> elements, the loop makes at most
  \<open>W * (N - 1)\<close> partition steps, whether it ends with an empty work-list or at a write
  outside the array.
\<close>

lemma it_partitions_bound:
  fixes v :: "'a::len word list"
  assumes "it_start v = Inr s0" "length v < 2 ^ 31"
  shows "it_partitions s0 \<le> LENGTH('a) * (length v - 1)"
proof -
  have "it_partitions s0 \<le> it_cost s0"
    using it_start_bounds [OF assms] by (rule it_partitions_cost)
  also have "it_cost s0 = LENGTH('a) * (length v - 1)"
    using it_start_live [OF assms(1)] int_of_size_id [OF assms(2)]
    by (simp add: it_cost_def task_cost_def)
  finally show ?thesis .
qed

section \<open>Vectors of \<open>2^31\<close> elements and more\<close>

text \<open>
  When the size of the span less one, stored in \<open>right\<close>, is negative as an \<open>int\<close>, the
  loop of \<open>bin_radix_sort_rec_inm\<close> does not run and \<open>left\<close> stays 0: the first recursive
  call is on the empty span and the second on the same span at the next bit. So the call
  returns with the vector as it was.
\<close>

lemma rec_inm_wrapped:
  assumes "int_of_size (span_size vview - 1) < 0"
  shows "bin_radix_sort_rec_inm v vview b = Inr v"
proof (induction "nat (b + 1)" arbitrary: b)
  case 0
  then have "b < 0" by simp
  then show ?case by (simp add: bin_radix_sort_rec_inm.simps [of v vview b])
next
  case (Suc k)
  then have k: "k = nat (b - 1 + 1)" by simp
  let ?lo = "\<lparr>span_data = span_data vview, span_size = 0\<rparr>"
  have part: "rec_partition v vview b 0 (int_of_size (span_size vview - 1)) = Inr (v, 0)"
    using assms by (simp add: rec_partition.simps [of v vview b 0])
  have lo: "subspan vview 0 0 = Inr ?lo" by (simp add: subspan_def)
  have rec_lo: "bin_radix_sort_rec_inm v ?lo (b - 1) = Inr v"
    by (simp add: bin_radix_sort_rec_inm.simps [of v ?lo])
  have hi: "subspan_from vview 0 = Inr vview" by (simp add: subspan_from_def)
  have rec_hi: "bin_radix_sort_rec_inm v vview (b - 1) = Inr v" using k by (rule Suc.hyps(1))
  show ?case
    using part lo rec_lo hi rec_hi by (simp add: bin_radix_sort_rec_inm.simps [of v vview b])
qed

lemma bin_radix_sort_rec_wrapped:
  assumes "int_of_size (length v - 1) < 0"
  shows "bin_radix_sort_rec v = Inr v"
  using assms by (simp add: bin_radix_sort_rec_def rec_inm_wrapped)

text \<open>
  The iterative variant drops a first task whose size, as an \<open>int\<close>, is at most 1, and
  returns with the vector as it was.
\<close>

lemma bin_radix_sort_it_wrapped:
  fixes v :: "'a::len word list"
  assumes "v \<noteq> []" "int_of_size (length v) \<le> 1"
  shows "bin_radix_sort_it v = Inr v"
proof -
  let ?st = "(replicate (length v) (0, 0, 0))
               [0 := (0, int_of_size (length v), int LENGTH('a) - 1)]"
  let ?s0 = "\<lparr>vec = v, stack = ?st, top_i = 0\<rparr>"
  let ?s1 = "\<lparr>vec = v, stack = ?st, top_i = - 1\<rparr>"
  have start: "it_start v = Inr ?s0" using it_start_cases [of v] assms(1) by simp
  have "stack_at ?st 0 = Inr (0, int_of_size (length v), int LENGTH('a) - 1)"
    using assms(1) by (simp add: stack_at_def)
  then have step: "it_step ?s0 = Inr ?s1" using assms(2) by (simp add: it_step_def)
  have "bin_radix_sort_it_loop ?s1 = Inr ?s1"
    by (simp add: bin_radix_sort_it_loop.simps [of ?s1])
  then have "bin_radix_sort_it_loop ?s0 = Inr ?s1"
    using step by (simp add: bin_radix_sort_it_loop.simps [of ?s0])
  then show ?thesis using start by (simp add: bin_radix_sort_it_def)
qed

text \<open>
  On a span of exactly \<open>2^31\<close> elements \<open>right\<close> is \<open>INT_MAX\<close>. When the elements all have
  the bit clear, \<open>left\<close> is incremented at each of them, the last time beyond \<open>INT_MAX\<close>.
\<close>

lemma rec_partition_overflow:
  fixes v :: "'a::len word list"
  assumes "0 \<le> left" "left \<le> INT_MAX" "span_data vview = 0" "span_size vview = 2 ^ 31"
    "v = replicate (2 ^ 31) 0"
  shows "rec_partition v vview b left INT_MAX = Inl IntOverflow"
  using assms(1,2)
proof (induction "nat (INT_MAX - left)" arbitrary: left)
  case 0
  then have left: "left = INT_MAX" by simp
  have "span_at v vview INT_MAX = Inr 0"
    using assms(3,4,5) by (simp add: span_at_def)
  then show ?case
    unfolding left by (simp add: rec_partition.simps [of v vview b INT_MAX])
next
  case (Suc k)
  then have lt: "left < INT_MAX" and k: "k = nat (INT_MAX - (left + 1))" by simp_all
  have "nat left < 2 ^ 31" using lt Suc.prems by simp
  then have "span_at v vview left = Inr 0"
    using assms(3,4,5) Suc.prems lt by (simp add: span_at_def)
  moreover have "rec_partition v vview b (left + 1) INT_MAX = Inl IntOverflow"
    using k Suc.prems lt by (intro Suc.hyps(1)) simp_all
  ultimately show ?case
    using lt by (simp add: rec_partition.simps [of v vview b left])
qed

lemma bin_radix_sort_rec_overflow:
  "bin_radix_sort_rec (replicate (2 ^ 31) (0 :: 'a::len word)) = Inl IntOverflow"
proof -
  let ?v = "replicate (2 ^ 31) (0 :: 'a word)"
  let ?vview = "\<lparr>span_data = 0, span_size = length ?v\<rparr>"
  have right: "int_of_size (span_size ?vview - 1) = INT_MAX"
    by (simp add: int_of_size_def)
  have part: "rec_partition ?v ?vview (int LENGTH('a) - 1) 0
                (int_of_size (span_size ?vview - 1)) = Inl IntOverflow"
    unfolding right by (rule rec_partition_overflow) simp_all
  have "\<not> (span_size ?vview \<le> 1 \<or> int LENGTH('a) - 1 < 0)" by simp
  then have "bin_radix_sort_rec_inm ?v ?vview (int LENGTH('a) - 1) = Inl IntOverflow"
    by (subst bin_radix_sort_rec_inm.simps) (simp only: part if_False sum.case)
  then show ?thesis by (simp only: bin_radix_sort_rec_def)
qed

text \<open>
  The iterative variant computes within the range of \<open>int\<close> on every vector, whatever its
  length: the first task has an \<open>int\<close> for its size, at most the size of the vector, and a
  pass splits a task into tasks inside its range. So a task that a pass partitions has
  \<open>0 \<le> start\<close>, \<open>right = start + size - 1 < INT_MAX\<close> inside the vector, and
  \<open>0 \<le> bit < W\<close>: the loop of \<open>it_partition\<close>, which keeps \<open>left\<close> and \<open>right\<close> between
  \<open>start - 1\<close> and \<open>start + size\<close>, increments and shifts as the source's loop does.
\<close>

lemma int_of_size_range:
  "- INT_MAX - 1 \<le> int_of_size n" "int_of_size n \<le> INT_MAX" "int_of_size n \<le> int n"
proof -
  define m where "m = int n mod 2 ^ 32"
  have m: "0 \<le> m" "m < 4294967296" "m \<le> int n"
    by (simp_all add: m_def zmod_le_nonneg_dividend)
  have "int_of_size n = (if m < 2147483648 then m else m - 4294967296)"
    by (simp add: int_of_size_def m_def)
  then show "- INT_MAX - 1 \<le> int_of_size n" "int_of_size n \<le> INT_MAX"
    "int_of_size n \<le> int n"
    using m by simp_all
qed

lemma it_start_ints:
  fixes v :: "'a::len word list"
  assumes "it_start v = Inr s0"
  shows "it_ints s0"
  using it_start_live [OF assms] int_of_size_range [of "length v"]
  by (simp add: it_ints_def task_fits_def)

lemma it_pass_ints:
  assumes "it_pass s s'" "it_ints s"
  shows "it_ints s'"
  using assms(1)
proof (cases rule: it_pass_cases)
  case discard
  then show ?thesis using assms(2) by (simp add: it_ints_def)
next
  case (split start size_i b ts left)
  have t: "0 \<le> start" "start + size_i \<le> INT_MAX" "start + size_i \<le> int (length (vec s))"
    and ts: "\<forall>t\<in>set ts. task_fits (length (vec s)) t"
    using assms(2) split(1,2) by (simp_all add: it_ints_def task_fits_def)
  have "start + size_i - 1 < int (length (vec s))" using t by simp
  from it_partition_spec [OF t(1) this, of b] split(4)
  have "length (vec s') = length (vec s)" "start \<le> left" "left \<le> start + size_i"
    using split(2) by auto
  then show ?thesis
    using t ts split(5) by (simp add: it_ints_def task_fits_def)
qed

lemma it_reach_ints:
  assumes "it_pass\<^sup>*\<^sup>* s0 s" "it_ints s0"
  shows "it_ints s"
  using assms by (induction rule: rtranclp_induct) (auto intro: it_pass_ints)

lemma it_reach_depth:
  assumes "it_pass\<^sup>*\<^sup>* s0 s" "it_depth w s0"
  shows "it_depth w s"
  using assms by (induction rule: rtranclp_induct) (auto intro: it_pass_depth)

lemma it_partition_ints:
  fixes v :: "'a::len word list"
  assumes "it_start v = Inr s0" "it_pass\<^sup>*\<^sup>* s0 s"
    "stack_at (stack s) (top_i s) = Inr (start, size_i, b)" "1 < size_i" "0 \<le> b"
  shows "0 \<le> start \<and> start + size_i - 1 < INT_MAX
         \<and> start + size_i \<le> int (length (vec s)) \<and> b < int LENGTH('a)"
proof -
  note s0 = it_start_live [OF assms(1)]
  define ts where "ts = take (nat (top_i s)) (stack s)"
  have "it_ints s" using assms(2) it_start_ints [OF assms(1)] by (rule it_reach_ints)
  moreover have l: "live s = ts @ [(start, size_i, b)]"
    unfolding ts_def using assms(3) by (rule stack_at_live)
  ultimately have "task_fits (length (vec s)) (start, size_i, b)" by (simp add: it_ints_def)
  then have fits: "0 \<le> start" "start + size_i \<le> INT_MAX"
    "start + size_i \<le> int (length (vec s))"
    using assms(4) by (simp_all add: task_fits_def)
  have "it_depth LENGTH('a) s0" by (simp add: it_depth_def s0)
  with assms(2) have "it_depth LENGTH('a) s" by (rule it_reach_depth)
  moreover have "length ts < length (live s)" "live s ! length ts = (start, size_i, b)"
    by (simp_all add: l)
  ultimately have "b + int (length ts) \<le> int LENGTH('a) - 1"
    unfolding it_depth_def by (metis snd_conv)
  then have "b < int LENGTH('a)" by simp
  with fits show ?thesis by simp
qed

section \<open>The comparison of the harness\<close>




section \<open>The claims\<close>

text \<open>
  C1. On a vector of fewer than \<open>2^31\<close> elements \<open>bin_radix_sort_rec\<close> returns the
  vector in ascending order (\<open>bin_radix_sort_rec_ascending\<close>). It does not on every
  vector. The size of the span less one is stored in the \<open>int right\<close> (line 27): for the
  vector of \<open>2^31 + 1\<close> 8-bit elements that is a 1 followed by zeros, \<open>right\<close> is
  \<open>- 2^31\<close>, no call partitions, and the function returns the vector as it was, the 1
  before the zeros.
\<close>

theorem bin_radix_sort_rec_int_wrap:
  "length (1 # replicate (2 ^ 31) (0 :: 8 word)) = 2 ^ 31 + 1
   \<and> int_of_size (length (1 # replicate (2 ^ 31) (0 :: 8 word)) - 1) = - (2 ^ 31)
   \<and> bin_radix_sort_rec (1 # replicate (2 ^ 31) (0 :: 8 word)) = Inr (1 # replicate (2 ^ 31) 0)
   \<and> \<not> sorted (1 # replicate (2 ^ 31) (0 :: 8 word))"
proof -
  let ?v = "1 # replicate (2 ^ 31) (0 :: 8 word)"
  have len: "length ?v = 2 ^ 31 + 1" by simp
  have right: "int_of_size (length ?v - 1) = - (2 ^ 31)"
    using int_of_size_wrap by simp
  then have "int_of_size (length ?v - 1) < 0" by simp
  then have run: "bin_radix_sort_rec ?v = Inr ?v" by (rule bin_radix_sort_rec_wrapped)
  have "(0 :: 8 word) \<in> set (replicate (2 ^ 31) 0)" by simp
  then have "\<not> sorted ?v" by (auto simp del: set_replicate)
  with len right run show ?thesis by (intro conjI)
qed

text \<open>
  C2. The elements after sorting are, as a multiset, the elements before: on vectors of
  fewer than \<open>2^31\<close> elements this holds for the recursive variant
  (\<open>bin_radix_sort_rec_mset\<close>), for every partition step of either variant
  (\<open>partition_step_mset\<close>), and for the iterative variant whenever it returns
  (\<open>bin_radix_sort_it_sort\<close>). It does not hold for the iterative variant on every
  input: on \<open>[7, 7, 7]\<close> with 8-bit elements, where the recursive variant returns the
  vector, the iterative variant writes \<open>stack[3]\<close> of an array of 3 entries and returns
  no vector.
\<close>

theorem bin_radix_sort_it_sevens:
  "bin_radix_sort_it [7, 7, 7 :: 8 word] = Inl (StackIndex 3)
   \<and> bin_radix_sort_rec [7, 7, 7 :: 8 word] = Inr [7, 7, 7]"
  by code_simp

text \<open>
  C3. On every vector of fewer than \<open>2^31\<close> elements the recursive variant returns what
  the reference sort returns (\<open>bin_radix_sort_rec_sort\<close>), and so does the iterative
  variant whenever it returns (\<open>bin_radix_sort_it_sort\<close>), which it does when the vector
  has more than \<open>W\<close> elements (\<open>bin_radix_sort_it_long\<close>). The three do not agree on
  every input: on \<open>[255, 255]\<close> with 8-bit elements the recursive variant and the
  reference sort return \<open>[255, 255]\<close>, and the iterative variant writes \<open>stack[2]\<close> of
  an array of 2 entries.
\<close>

theorem bin_radix_sort_variants_differ:
  "bin_radix_sort_rec [255, 255 :: 8 word] = Inr [255, 255]
   \<and> sort [255, 255 :: 8 word] = [255, 255]
   \<and> bin_radix_sort_it [255, 255 :: 8 word] = Inl (StackIndex 2)"
  by code_simp

text \<open>
  C4. The length of the vector does not bound the number of pending tasks, and the
  work-list array is written outside its bounds. On \<open>[128, 128]\<close> with 8-bit elements
  the start writes \<open>stack[0]\<close>; the first pass pops the task \<open>(0, 2, 7)\<close> and pushes
  \<open>(0, 0, 6)\<close> and \<open>(0, 2, 6)\<close>; the second pass pops \<open>(0, 2, 6)\<close> at \<open>top = 1\<close>, writes
  \<open>stack[1]\<close> and then \<open>stack[2]\<close>, outside the array of 2 entries. On every vector of
  fewer than \<open>2^31\<close> elements the run either returns or ends at such a write at or above
  the length of the array (\<open>bin_radix_sort_it_cases\<close>); an array of more than \<open>W\<close>
  entries is never overrun (\<open>it_loop_total\<close>, \<open>bin_radix_sort_it_long\<close>).
\<close>

theorem bin_radix_sort_it_stack_overrun:
  "it_start [128, 128 :: 8 word]
     = Inr \<lparr>vec = [128, 128], stack = [(0, 2, 7), (0, 0, 0)], top_i = 0\<rparr>
   \<and> it_step \<lparr>vec = [128, 128 :: 8 word], stack = [(0, 2, 7), (0, 0, 0)], top_i = 0\<rparr>
     = Inr \<lparr>vec = [128, 128], stack = [(0, 0, 6), (0, 2, 6)], top_i = 1\<rparr>
   \<and> it_step \<lparr>vec = [128, 128 :: 8 word], stack = [(0, 0, 6), (0, 2, 6)], top_i = 1\<rparr>
     = Inl (StackIndex 2)
   \<and> bin_radix_sort_it [128, 128 :: 8 word] = Inl (StackIndex 2)"
  by code_simp

text \<open>
  C5. On the empty vector the recursive variant returns the empty vector, and on a
  vector of one element both variants return it unchanged. On the empty vector the
  iterative variant does not return: its work-list array has no entry and the start
  writes \<open>stack[0]\<close>. This holds for every width of the elements.
\<close>

theorem bin_radix_sort_empty_and_single:
  fixes x :: "'a::len word"
  shows "bin_radix_sort_it ([] :: 'a word list) = Inl (StackIndex 0)
   \<and> bin_radix_sort_rec ([] :: 'a word list) = Inr []
   \<and> bin_radix_sort_rec [x] = Inr [x]
   \<and> bin_radix_sort_it [x] = Inr [x]"
proof -
  have "bin_radix_sort_it ([] :: 'a word list) = Inl (StackIndex 0)"
    by (simp add: bin_radix_sort_it_def it_start_def stack_set_def)
  moreover have "bin_radix_sort_rec ([] :: 'a word list) = Inr []"
    by (simp add: bin_radix_sort_rec_def bin_radix_sort_rec_inm.simps)
  moreover have "bin_radix_sort_rec [x] = Inr [x]"
    by (simp add: bin_radix_sort_rec_def bin_radix_sort_rec_inm.simps)
  moreover have "bin_radix_sort_it [x] = Inr [x]"
  proof -
    let ?s0 = "\<lparr>vec = [x], stack = [(0, 1, int LENGTH('a) - 1)], top_i = 0\<rparr>"
    let ?s1 = "\<lparr>vec = [x], stack = [(0, 1, int LENGTH('a) - 1)], top_i = - 1\<rparr>"
    have "it_start [x] = Inr ?s0" by (simp add: it_start_def stack_set_def int_of_size_def)
    moreover have "it_step ?s0 = Inr ?s1"
      by (simp add: it_step_def stack_at_def)
    moreover have "bin_radix_sort_it_loop ?s1 = Inr ?s1"
      by (simp add: bin_radix_sort_it_loop.simps [of ?s1])
    ultimately have "it_start [x] = Inr ?s0" "bin_radix_sort_it_loop ?s0 = Inr ?s1"
      by (simp_all add: bin_radix_sort_it_loop.simps [of ?s0])
    then show ?thesis by (simp add: bin_radix_sort_it_def)
  qed
  ultimately show ?thesis by simp
qed



text \<open>
  C7. The recursion of the recursive variant nests at most \<open>W\<close> calls below the first
  (\<open>rec_depth\<close>) and returns on every vector of fewer than \<open>2^31\<close> elements
  (\<open>bin_radix_sort_rec_sort\<close>). The loop of the iterative variant makes at most
  \<open>W * (N - 1)\<close> partition steps on such a vector (\<open>it_partitions_bound\<close>), but it does
  not end with an empty work-list on every input: on \<open>[3, 3]\<close> with 16-bit elements, from
  the state the start leaves, it ends at a write of \<open>stack[2]\<close> outside the array of 2
  entries.
\<close>

theorem bin_radix_sort_it_loop_overrun:
  "it_start [3, 3 :: 16 word]
     = Inr \<lparr>vec = [3, 3], stack = [(0, 2, 15), (0, 0, 0)], top_i = 0\<rparr>
   \<and> bin_radix_sort_it_loop \<lparr>vec = [3, 3 :: 16 word], stack = [(0, 2, 15), (0, 0, 0)], top_i = 0\<rparr>
     = Inl (StackIndex 2)
   \<and> bin_radix_sort_it [3, 3 :: 16 word] = Inl (StackIndex 2)"
  by code_simp



text \<open>
  C9. In \<open>bin_radix_sort_it\<close>, the partition of a task \<open>(start, size, bit)\<close> with
  \<open>size \<ge> 2\<close> and \<open>bit \<ge> 0\<close> whose range lies in the vector returns and leaves every
  element outside \<open>start ..< start + size\<close> as it was; and it reads nothing outside the
  range: on any vector with the same elements in the range it returns the same boundary
  and the same elements in the range.
\<close>

theorem it_partition_frame:
  assumes "2 \<le> size_i" "0 \<le> b" "0 \<le> start" "start + size_i \<le> int (length v)"
  shows "\<exists>v' left. it_partition v b start (start + size_i - 1) = Inr (v', left)
           \<and> length v' = length v
           \<and> (\<forall>i. 0 \<le> i \<and> i < int (length v) \<and> (i < start \<or> start + size_i \<le> i)
                  \<longrightarrow> v' ! nat i = v ! nat i)
           \<and> (\<forall>w. length w = length v
                    \<and> (\<forall>i. start \<le> i \<and> i < start + size_i \<longrightarrow> w ! nat i = v ! nat i)
                  \<longrightarrow> (\<exists>w'. it_partition w b start (start + size_i - 1) = Inr (w', left)
                         \<and> (\<forall>i. start \<le> i \<and> i < start + size_i
                                \<longrightarrow> w' ! nat i = v' ! nat i)))"
proof -
  have r: "start + size_i - 1 < int (length v)" using assms by simp
  from it_partition_spec [OF assms(3) r, of b]
  obtain v' l where
    run: "it_partition v b start (start + size_i - 1) = Inr (v', l)" and
    len: "length v' = length v" and
    frame: "\<And>i. 0 \<le> i \<Longrightarrow> i < int (length v) \<Longrightarrow> i < start \<or> start + size_i - 1 < i
              \<Longrightarrow> v' ! nat i = v ! nat i"
    by auto
  have loc: "\<exists>w'. it_partition w b start (start + size_i - 1) = Inr (w', l)
               \<and> (\<forall>i. start \<le> i \<and> i < start + size_i \<longrightarrow> w' ! nat i = v' ! nat i)"
    if "length w = length v"
      "\<forall>i. start \<le> i \<and> i < start + size_i \<longrightarrow> w ! nat i = v ! nat i" for w
  proof -
    have "\<forall>i. start \<le> i \<and> i \<le> start + size_i - 1 \<longrightarrow> w ! nat i = v ! nat i"
      using that(2) by simp
    from it_partition_local [OF assms(3) r that(1) this run]
    show ?thesis by auto
  qed
  show ?thesis
    using run len frame loc by (intro exI [of _ v'] exI [of _ l]) auto
qed

theorem it_partition_frame_witness:
  "(2::int) \<le> 3 \<and> (0::int) \<le> 0 \<and> (0::int) \<le> 1 \<and> 1 + 3 \<le> int (length [4, 1, 2, 3, 6 :: 8 word])
   \<and> it_partition [4, 1, 2, 3, 6 :: 8 word] 0 1 (1 + 3 - 1) = Inr ([4, 2, 3, 1, 6], 2)
   \<and> [4, 2, 3, 1, 6 :: 8 word] ! nat 0 = [4, 1, 2, 3, 6] ! nat 0
   \<and> [4, 2, 3, 1, 6 :: 8 word] ! nat 4 = [4, 1, 2, 3, 6] ! nat 4"
proof -
  let ?v = "[4, 1, 2, 3, 6 :: 8 word]"
  have h: "(2::int) \<le> 3" "(0::int) \<le> 0" "(0::int) \<le> 1" "1 + 3 \<le> int (length ?v)"
    by simp_all
  have run: "it_partition ?v 0 1 (1 + 3 - 1) = Inr ([4, 2, 3, 1, 6], 2)" by code_simp
  from it_partition_frame [OF h] obtain v' left where
    "it_partition ?v 0 1 (1 + 3 - 1) = Inr (v', left)"
    "\<forall>i. 0 \<le> i \<and> i < int (length ?v) \<and> (i < 1 \<or> 1 + 3 \<le> i) \<longrightarrow> v' ! nat i = ?v ! nat i"
    by blast
  with run have
    "\<forall>i. 0 \<le> i \<and> i < int (length ?v) \<and> (i < 1 \<or> 1 + 3 \<le> i)
       \<longrightarrow> [4, 2, 3, 1, 6 :: 8 word] ! nat i = ?v ! nat i"
    by simp
  then have "[4, 2, 3, 1, 6 :: 8 word] ! nat 0 = ?v ! nat 0"
    "[4, 2, 3, 1, 6 :: 8 word] ! nat 4 = ?v ! nat 4"
    by simp_all
  with h run show ?thesis by simp
qed



end
